theory Spec2Isabelle
  imports Complex_Main "HOL-Library.List_Lexorder" "HOL-Library.Product_Lexorder"
    "HOL-Library.Multiset"
begin

section \<open>Python values used by log\_parser.py\<close>

text \<open>
  A Python \<open>str\<close> is a sequence of Unicode code points: \<open>len\<close>, the padding of a format
  field and the comparison \<open><\<close> all work on code points. It is modelled as a list of
  natural numbers; \<open>ascii\<close> embeds an ASCII literal. Lists of code points are ordered
  lexicographically (a proper prefix is smaller), which is Python's order on \<open>str\<close>.
\<close>

type_synonym pystr = "nat list"

definition ascii :: "string \<Rightarrow> pystr" where
  "ascii s = map of_char s"

text \<open>\<open>str(n)\<close> for a non-negative integer, and \<open>str(i)\<close> for any integer.\<close>

fun str_nat :: "nat \<Rightarrow> pystr" where
  "str_nat n = (if n < 10 then [48 + n] else str_nat (n div 10) @ [48 + n mod 10])"

declare str_nat.simps [simp del]

definition str_int :: "int \<Rightarrow> pystr" where
  "str_int i = (if i < 0 then 45 # str_nat (nat (- i)) else str_nat (nat i))"

text \<open>
  The format specification \<open><10\<close>: left-aligned in a field of minimum width 10, filled
  with spaces. Nothing is cut off when the text is longer than the field.
\<close>

definition ljust :: "nat \<Rightarrow> pystr \<Rightarrow> pystr" where
  "ljust w s = s @ replicate (w - length s) 32"

text \<open>
  \<open>str.isspace\<close> on one code point (the white space table of CPython), and
  \<open>str.strip()\<close> without argument, which removes leading and trailing white space.
\<close>

definition isspace :: "nat \<Rightarrow> bool" where
  "isspace c \<longleftrightarrow>
     (9 \<le> c \<and> c \<le> 13) \<or> (28 \<le> c \<and> c \<le> 32) \<or> c = 133 \<or> c = 160 \<or> c = 5760 \<or>
     (8192 \<le> c \<and> c \<le> 8202) \<or> c = 8232 \<or> c = 8233 \<or> c = 8239 \<or> c = 8287 \<or> c = 12288"

definition strip :: "pystr \<Rightarrow> pystr" where
  "strip s = rev (dropWhile isspace (rev (dropWhile isspace s)))"

text \<open>\<open>os.path.basename\<close> (POSIX): everything after the last slash.\<close>

definition basename :: "pystr \<Rightarrow> pystr" where
  "basename p = rev (takeWhile (\<lambda>c. c \<noteq> 47) (rev p))"

text \<open>
  A Python \<open>float\<close> by its value: a finite number (a rational; the doubles are among
  them), negative zero, the two infinities, and the one \<open>NaN\<close> object that \<open>json.loads\<close>
  returns for the text \<open>NaN\<close>.
\<close>

datatype pyfloat = Finite rat | NegZero | PosInf | NegInf | NaN

text \<open>
  The values \<open>json.loads\<close> returns: \<open>None\<close>, \<open>bool\<close>, \<open>int\<close> (unbounded), \<open>float\<close>,
  \<open>str\<close>, \<open>list\<close> and \<open>dict\<close> with string keys. A \<open>dict\<close> is kept as the list of its
  items and read with \<open>map_of\<close>.
\<close>

datatype json =
    JNull
  | JBool bool
  | JInt int
  | JFloat pyfloat
  | JString pystr
  | JArray "json list"
  | JObject "(pystr \<times> json) list"

text \<open>
  The exceptions that occur. \<open>FileNotFoundError\<close> and \<open>OtherException\<close> carry the text
  that \<open>str(e)\<close> shows; the texts of the interpreter's own exceptions are not fixed by the
  source and come from the environment.
\<close>

datatype exn =
    FileNotFoundError pystr
  | JSONDecodeError
  | AttributeError
  | TypeError
  | ValueError
  | UnicodeEncodeError
  | OtherException pystr

text \<open>
  What the program takes from outside: \<open>os.path.exists\<close>; the file behind a path, as
  the exception raised by \<open>open\<close> or the lines that iterating the file yields, followed
  by the exception that ends the iteration early, if any (the file is read while the
  loop runs); \<open>json.loads\<close>, which returns a value or raises; the code points beyond
  ASCII that standard output can encode; the text of a \<open>float\<close>; the text of the
  interpreter's exceptions; and the order in which \<open>sorted\<close> leaves items when \<open>NaN\<close>,
  which compares false with everything, is among the keys.
\<close>

record env =
  path_exists :: "pystr \<Rightarrow> bool"
  open_lines :: "pystr \<Rightarrow> exn + (pystr list \<times> exn option)"
  json_loads :: "pystr \<Rightarrow> exn + json"
  encodes :: "nat \<Rightarrow> bool"
  float_str :: "pyfloat \<Rightarrow> pystr"
  exn_text :: "exn \<Rightarrow> pystr"
  nan_sorted :: "(json \<times> nat) list \<Rightarrow> (json \<times> nat) list"

text \<open>
  \<open>print(s)\<close>: the text is encoded for standard output before anything is written.
  ASCII is encodable; a code point that is not (a lone surrogate under UTF-8, anything
  beyond Latin-1 under Latin-1) makes \<open>print\<close> raise \<open>UnicodeEncodeError\<close>. Each element of
  an output is the argument of one successful call.
\<close>

definition printable :: "env \<Rightarrow> pystr \<Rightarrow> bool" where
  "printable E s = list_all (\<lambda>c. c < 128 \<or> encodes E c) s"

definition print :: "env \<Rightarrow> pystr \<Rightarrow> pystr list \<Rightarrow> pystr list \<times> (exn + unit)" where
  "print E s out = (if printable E s then (out @ [s], Inr ()) else (out, Inl UnicodeEncodeError))"

section \<open>The loader\<close>

record LogParser =
  file_path :: pystr
  logs :: "json list"

definition warning :: "nat \<Rightarrow> pystr" where
  "warning i = ascii ''Warning: Skipping malformed JSON on line '' @ str_nat i"

text \<open>
  The body of \<open>_load_logs\<close>: \<open>for i, line in enumerate(file, 1)\<close>. Only
  \<open>JSONDecodeError\<close> is caught (line 39); any other exception of the decoder, an
  exception of the \<open>print\<close> in the handler, and the exception that ends the iteration
  leave the loop and the function. The result pairs what has been printed with the
  outcome.
\<close>

fun load_loop ::
  "env \<Rightarrow> nat \<Rightarrow> pystr list \<Rightarrow> exn option \<Rightarrow> json list \<Rightarrow> pystr list
     \<Rightarrow> pystr list \<times> (exn + json list)" where
  "load_loop E i [] ending parsed_logs out =
     (case ending of None \<Rightarrow> (out, Inr parsed_logs) | Some e \<Rightarrow> (out, Inl e))"
| "load_loop E i (line # rest) ending parsed_logs out =
     (if strip line = [] then load_loop E (Suc i) rest ending parsed_logs out
      else case json_loads E line of
          Inr v \<Rightarrow> load_loop E (Suc i) rest ending (parsed_logs @ [v]) out
        | Inl JSONDecodeError \<Rightarrow>
            (case print E (warning i) out of
               (out', Inl e) \<Rightarrow> (out', Inl e)
             | (out', Inr u) \<Rightarrow> load_loop E (Suc i) rest ending parsed_logs out')
        | Inl e \<Rightarrow> (out, Inl e))"

definition load_logs :: "env \<Rightarrow> pystr \<Rightarrow> pystr list \<times> (exn + json list)" where
  "load_logs E path =
     (case open_lines E path of
        Inl e \<Rightarrow> ([], Inl e)
      | Inr (lines, ending) \<Rightarrow> load_loop E 1 lines ending [] [])"

text \<open>\<open>LogParser.__init__\<close>.\<close>

definition init :: "env \<Rightarrow> pystr \<Rightarrow> pystr list \<times> (exn + LogParser)" where
  "init E path =
     (if \<not> path_exists E path
      then ([], Inl (FileNotFoundError (ascii ''File doesn't exists '' @ path)))
      else case load_logs E path of
          (out, Inl e) \<Rightarrow> (out, Inl e)
        | (out, Inr parsed) \<Rightarrow> (out, Inr \<lparr>file_path = path, logs = parsed\<rparr>))"

section \<open>The summarizer\<close>

definition level_key :: pystr where
  "level_key = ascii ''level''"

definition UNKNOWN :: json where
  "UNKNOWN = JString (ascii ''UNKNOWN'')"

text \<open>
  \<open>log.get("level", "UNKNOWN")\<close>. Only a \<open>dict\<close> has the method \<open>get\<close>; on every other
  value the attribute lookup raises \<open>AttributeError\<close>.
\<close>

fun get_level :: "json \<Rightarrow> exn + json" where
  "get_level (JObject d) =
     Inr (case map_of d level_key of Some v \<Rightarrow> v | None \<Rightarrow> UNKNOWN)"
| "get_level _ = Inl AttributeError"

text \<open>
  Keys of a \<open>Counter\<close> must be hashable: \<open>list\<close> and \<open>dict\<close> are not. Two keys are the
  same key when they are equal in Python: numbers by their value, whatever their type
  (\<open>True == 1 == 1.0\<close>, \<open>-0.0 == 0\<close>), the one \<open>NaN\<close> object only with itself. A number is
  placed by \<open>num_key\<close>: the first component tells the infinities from the finite values,
  and pairs are ordered lexicographically.
\<close>

fun hashable :: "json \<Rightarrow> bool" where
  "hashable (JArray _) = False"
| "hashable (JObject _) = False"
| "hashable _ = True"

fun num_key :: "json \<Rightarrow> (int \<times> rat) option" where
  "num_key (JBool b) = Some (0, if b then 1 else 0)"
| "num_key (JInt i) = Some (0, of_int i)"
| "num_key (JFloat (Finite r)) = Some (0, r)"
| "num_key (JFloat NegZero) = Some (0, 0)"
| "num_key (JFloat PosInf) = Some (1, 0)"
| "num_key (JFloat NegInf) = Some (- 1, 0)"
| "num_key _ = None"

definition py_eq :: "json \<Rightarrow> json \<Rightarrow> bool" where
  "py_eq a b =
     (case (num_key a, num_key b) of
        (Some x, Some y) \<Rightarrow> x = y
      | (None, None) \<Rightarrow> a = b
      | _ \<Rightarrow> False)"

text \<open>
  A \<open>Counter\<close> is a \<open>dict\<close> from keys to counts, kept in insertion order.
  \<open>counter_add\<close> is \<open>c[k] += 1\<close>: an existing equal key keeps its place and its first
  spelling. \<open>counter_get\<close> is \<open>c[k]\<close>, which is 0 for a missing key.
\<close>

fun counter_add :: "json \<Rightarrow> (json \<times> nat) list \<Rightarrow> (json \<times> nat) list" where
  "counter_add k [] = [(k, 1)]"
| "counter_add k ((k', n) # c) =
     (if py_eq k' k then (k', Suc n) # c else (k', n) # counter_add k c)"

fun counter_get :: "(json \<times> nat) list \<Rightarrow> json \<Rightarrow> nat" where
  "counter_get [] k = 0"
| "counter_get ((k', n) # c) k = (if py_eq k' k then n else counter_get c k)"

text \<open>
  \<open>Counter(log.get("level", "UNKNOWN") for log in self.logs)\<close>: the generator is
  consumed record by record, and the first failing record ends the construction.
\<close>

fun count_levels :: "json list \<Rightarrow> (json \<times> nat) list \<Rightarrow> exn + (json \<times> nat) list" where
  "count_levels [] c = Inr c"
| "count_levels (entry # rest) c =
     (case get_level entry of
        Inl e \<Rightarrow> Inl e
      | Inr k \<Rightarrow> if hashable k then count_levels rest (counter_add k c) else Inl TypeError)"

text \<open>
  \<open>sorted(level_counts.items())\<close>. The items are pairs with pairwise unequal keys, so
  every comparison is decided by \<open><\<close> on two keys. That is defined between two strings
  (lexicographic) and between two numbers (by value); any other pair raises \<open>TypeError\<close>.
  One item alone is never compared. With two items or more every item takes part in a
  comparison and the comparisons connect all items, so the sort succeeds exactly when all
  keys are strings or all keys are numbers. When \<open>NaN\<close> is among several numeric keys
  the comparisons are not those of an order and the result is some rearrangement of the
  items, which the environment gives.
\<close>

fun is_str :: "json \<Rightarrow> bool" where
  "is_str (JString _) = True"
| "is_str _ = False"

fun is_number :: "json \<Rightarrow> bool" where
  "is_number (JBool _) = True"
| "is_number (JInt _) = True"
| "is_number (JFloat _) = True"
| "is_number _ = False"

fun str_val :: "json \<Rightarrow> pystr" where
  "str_val (JString s) = s"
| "str_val _ = []"

definition num_val :: "json \<Rightarrow> int \<times> rat" where
  "num_val k = (case num_key k of Some x \<Rightarrow> x | None \<Rightarrow> (0, 0))"

definition sorted_items :: "env \<Rightarrow> (json \<times> nat) list \<Rightarrow> exn + (json \<times> nat) list" where
  "sorted_items E c =
     (if length c \<le> 1 then Inr c
      else if list_all (\<lambda>(k, n). is_str k) c then Inr (sort_key (\<lambda>(k, n). str_val k) c)
      else if list_all (\<lambda>(k, n). is_number k) c then
        (if list_ex (\<lambda>(k, n). k = JFloat NaN) c
         then Inr (if mset (nan_sorted E c) = mset c then nan_sorted E c else c)
         else Inr (sort_key (\<lambda>(k, n). num_val k) c))
      else Inl TypeError)"

text \<open>
  \<open>f"{level:<10}"\<close>: a string is padded; an \<open>int\<close> or \<open>bool\<close> is written in decimal
  (\<open>bool\<close> uses the format of \<open>int\<close>) and padded; a \<open>float\<close> is written as \<open>str\<close> writes
  it and padded; \<open>None\<close>, \<open>list\<close> and \<open>dict\<close> accept no format specification and raise
  \<open>TypeError\<close>. (The limit on the digits of an \<open>int\<close> is the one the decoder applies, so
  an \<open>int\<close> that was decoded can be written.)
\<close>

fun format_level :: "env \<Rightarrow> json \<Rightarrow> exn + pystr" where
  "format_level E (JString s) = Inr (ljust 10 s)"
| "format_level E (JInt i) = Inr (ljust 10 (str_int i))"
| "format_level E (JBool b) = Inr (ljust 10 (str_int (if b then 1 else 0)))"
| "format_level E (JFloat x) = Inr (ljust 10 (float_str E x))"
| "format_level E _ = Inl TypeError"

definition level_line :: "pystr \<Rightarrow> nat \<Rightarrow> pystr" where
  "level_line field n = field @ ascii '': '' @ str_nat n"

text \<open>The loop of lines 58 to 60, with the running \<open>total_logs\<close>.\<close>

fun print_levels ::
  "env \<Rightarrow> (json \<times> nat) list \<Rightarrow> nat \<Rightarrow> pystr list \<Rightarrow> pystr list \<times> (exn + nat)" where
  "print_levels E [] total_logs out = (out, Inr total_logs)"
| "print_levels E ((level, n) # rest) total_logs out =
     (case format_level E level of
        Inl e \<Rightarrow> (out, Inl e)
      | Inr field \<Rightarrow>
          (case print E (level_line field n) out of
             (out', Inl e) \<Rightarrow> (out', Inl e)
           | (out', Inr u) \<Rightarrow> print_levels E rest (total_logs + n) out'))"

definition no_entries :: pystr where
  "no_entries = ascii ''No valid log entries found.''"

definition header :: "pystr \<Rightarrow> pystr" where
  "header path =
     [10, 128202] @ ascii '' Log Level Summary for '' @ [39] @ basename path @ [39]"

definition rule_line :: pystr where
  "rule_line = replicate 50 9473"

definition total_line :: "nat \<Rightarrow> pystr" where
  "total_line n = level_line (ljust 10 (ascii ''Total'')) n @ [10]"

text \<open>
  \<open>display_summary\<close>. The \<open>Counter\<close> is built before anything is printed; the header and
  the first rule are printed before the items are sorted.
\<close>

definition display_summary :: "env \<Rightarrow> LogParser \<Rightarrow> pystr list \<times> (exn + unit)" where
  "display_summary E self =
     (if logs self = [] then print E no_entries []
      else case count_levels (logs self) [] of
          Inl e \<Rightarrow> ([], Inl e)
        | Inr level_counts \<Rightarrow>
            (case print E (header (file_path self)) [] of
               (out1, Inl e) \<Rightarrow> (out1, Inl e)
             | (out1, Inr u1) \<Rightarrow>
            (case print E rule_line out1 of
               (out2, Inl e) \<Rightarrow> (out2, Inl e)
             | (out2, Inr u2) \<Rightarrow>
            (case sorted_items E level_counts of
               Inl e \<Rightarrow> (out2, Inl e)
             | Inr items \<Rightarrow>
            (case print_levels E items 0 out2 of
               (out3, Inl e) \<Rightarrow> (out3, Inl e)
             | (out3, Inr total_logs) \<Rightarrow>
            (case print E rule_line out3 of
               (out4, Inl e) \<Rightarrow> (out4, Inl e)
             | (out4, Inr u4) \<Rightarrow> print E (total_line total_logs) out4))))))"

section \<open>The program\<close>

definition str_exn :: "env \<Rightarrow> exn \<Rightarrow> pystr" where
  "str_exn E e =
     (case e of
        FileNotFoundError m \<Rightarrow> m
      | OtherException m \<Rightarrow> m
      | _ \<Rightarrow> exn_text E e)"

definition report_error :: "env \<Rightarrow> exn \<Rightarrow> pystr" where
  "report_error E e =
     (case e of
        FileNotFoundError m \<Rightarrow> [10060, 32] @ str_exn E e
      | _ \<Rightarrow> [10060] @ ascii '' An unexpected error occurred: '' @ str_exn E e)"

text \<open>
  \<open>main\<close> after the arguments are parsed: the \<open>try\<close> block of lines 79 to 87. A
  handler prints and falls through; an exception raised by the \<open>print\<close> inside a handler
  is caught by no other handler and leaves \<open>main\<close>.
\<close>

definition main :: "env \<Rightarrow> pystr \<Rightarrow> pystr list \<times> (exn + unit)" where
  "main E filename =
     (case init E filename of
        (out, Inl e) \<Rightarrow> print E (report_error E e) out
      | (out, Inr parser) \<Rightarrow>
          (case display_summary E parser of
             (out', Inl e) \<Rightarrow> print E (report_error E e) (out @ out')
           | (out', Inr u) \<Rightarrow> (out @ out', Inr ())))"

section \<open>Notions used in the statements\<close>

subsection \<open>Lines of the input file\<close>

text \<open>
  A line is blank when \<open>line.strip()\<close> is empty. A non-blank line is \<open>malformed\<close> when
  the decoder raises \<open>JSONDecodeError\<close> on it, it \<open>decodes\<close> when the decoder returns a
  value, and it \<open>aborts\<close> the load when the decoder raises anything else (such an
  exception is not caught in \<open>_load_logs\<close>).
\<close>

definition malformed :: "env \<Rightarrow> pystr \<Rightarrow> bool" where
  "malformed E l \<longleftrightarrow> strip l \<noteq> [] \<and> json_loads E l = Inl JSONDecodeError"

definition decodes :: "env \<Rightarrow> pystr \<Rightarrow> bool" where
  "decodes E l \<longleftrightarrow>
     strip l \<noteq> [] \<and> (case json_loads E l of Inr v \<Rightarrow> True | Inl e \<Rightarrow> False)"

definition aborts :: "env \<Rightarrow> pystr \<Rightarrow> bool" where
  "aborts E l \<longleftrightarrow>
     strip l \<noteq> [] \<and>
     (case json_loads E l of Inr v \<Rightarrow> False | Inl e \<Rightarrow> e \<noteq> JSONDecodeError)"

text \<open>
  The warnings expected for lines of which the first has number \<open>i\<close>: one for each
  malformed line, carrying the number of that line, in file order. The values expected
  in the collection: those of the lines that decode, in file order. The lines that the
  loop reaches: those before the first line that aborts the load.
\<close>

definition warnings_of :: "env \<Rightarrow> nat \<Rightarrow> pystr list \<Rightarrow> pystr list" where
  "warnings_of E i lines =
     map (\<lambda>(n, l). warning n) (filter (\<lambda>(n, l). malformed E l) (enumerate i lines))"

definition values_of :: "env \<Rightarrow> pystr list \<Rightarrow> json list" where
  "values_of E lines = map (\<lambda>l. projr (json_loads E l)) (filter (decodes E) lines)"

definition reached :: "env \<Rightarrow> pystr list \<Rightarrow> pystr list" where
  "reached E lines = takeWhile (\<lambda>l. \<not> aborts E l) lines"

text \<open>
  The outcome expected of the load: the exception of the first line that aborts it,
  else the exception that ends the reading, else the collection.
\<close>

definition load_outcome :: "env \<Rightarrow> pystr list \<Rightarrow> exn option \<Rightarrow> exn + json list" where
  "load_outcome E lines ending =
     (case find (aborts E) lines of
        Some l \<Rightarrow> Inl (projl (json_loads E l))
      | None \<Rightarrow> (case ending of Some e \<Rightarrow> Inl e | None \<Rightarrow> Inr (values_of E lines)))"

text \<open>Reading a decimal numeral back, to show that \<open>str_nat\<close> loses nothing.\<close>

fun digits_val :: "pystr \<Rightarrow> nat" where
  "digits_val ds = foldl (\<lambda>a d. 10 * a + (d - 48)) 0 ds"

subsection \<open>Records and their grouping keys\<close>

text \<open>
  \<open>counted_as k r\<close>: the record is a mapping whose grouping key equals \<open>k\<close>.
  \<open>countable_log\<close>: the record is a mapping with a hashable grouping key.
  \<open>str_level\<close>, \<open>num_level\<close>: the record is a mapping whose grouping key is a string
  (the default \<open>"UNKNOWN"\<close> included), respectively a number (\<open>int\<close>, \<open>bool\<close> or
  \<open>float\<close>). \<open>nan_level\<close>: the grouping key is \<open>NaN\<close>.
\<close>

definition counted_as :: "json \<Rightarrow> json \<Rightarrow> bool" where
  "counted_as k r = (case get_level r of Inr k' \<Rightarrow> py_eq k' k | Inl e \<Rightarrow> False)"

definition countable_log :: "json \<Rightarrow> bool" where
  "countable_log r = (case get_level r of Inr k \<Rightarrow> hashable k | Inl e \<Rightarrow> False)"

definition str_level :: "json \<Rightarrow> bool" where
  "str_level r = (case get_level r of Inr k \<Rightarrow> is_str k | Inl e \<Rightarrow> False)"

definition num_level :: "json \<Rightarrow> bool" where
  "num_level r = (case get_level r of Inr k \<Rightarrow> is_number k | Inl e \<Rightarrow> False)"

definition nan_level :: "json \<Rightarrow> bool" where
  "nan_level r = (get_level r = Inr (JFloat NaN))"

definition level_of :: "json \<Rightarrow> json" where
  "level_of r = (case get_level r of Inr k \<Rightarrow> k | Inl e \<Rightarrow> JNull)"

text \<open>
  The keys of the level summary, as the specification has it: the distinct grouping
  keys in the order of their first occurrence, each with the number of records that
  have it.
\<close>

definition insert_key :: "json \<Rightarrow> json list \<Rightarrow> json list" where
  "insert_key k seen = (if list_ex (\<lambda>k'. py_eq k' k) seen then seen else seen @ [k])"

definition first_keys :: "json list \<Rightarrow> json list" where
  "first_keys rs = foldl (\<lambda>seen r. insert_key (level_of r) seen) [] rs"

definition level_summary :: "json list \<Rightarrow> (json \<times> nat) list" where
  "level_summary rs = map (\<lambda>k. (k, length (filter (counted_as k) rs))) (first_keys rs)"

text \<open>The keys of a counter are pairwise different keys.\<close>

fun keys_differ :: "(json \<times> nat) list \<Rightarrow> bool" where
  "keys_differ [] = True"
| "keys_differ ((k, n) # c) = ((\<forall>(k', n') \<in> set c. \<not> py_eq k k') \<and> keys_differ c)"

text \<open>The text of a key in its field, and the line of an item.\<close>

definition field_of :: "env \<Rightarrow> json \<Rightarrow> pystr" where
  "field_of E k = (case format_level E k of Inr s \<Rightarrow> s | Inl e \<Rightarrow> [])"

definition item_line :: "env \<Rightarrow> json \<times> nat \<Rightarrow> pystr" where
  "item_line E item = level_line (field_of E (fst item)) (snd item)"

text \<open>
  The text of a key as the report shows it, an item that can be formatted and printed,
  and the line of an item written out: the text of the key, padded with spaces to ten
  places, a colon, a space and the count.
\<close>

fun key_text :: "env \<Rightarrow> json \<Rightarrow> pystr" where
  "key_text E (JString s) = s"
| "key_text E (JInt i) = str_int i"
| "key_text E (JBool b) = (if b then ascii ''1'' else ascii ''0'')"
| "key_text E (JFloat x) = float_str E x"
| "key_text E _ = []"

definition report_line :: "env \<Rightarrow> json \<times> nat \<Rightarrow> pystr" where
  "report_line E item =
     key_text E (fst item) @ replicate (10 - length (key_text E (fst item))) 32 @
     [58, 32] @ str_nat (snd item)"

definition items_ok :: "env \<Rightarrow> (json \<times> nat) list \<Rightarrow> bool" where
  "items_ok E items =
     list_all (\<lambda>x. (is_str (fst x) \<or> is_number (fst x)) \<and> printable E (field_of E (fst x)))
       items"

text \<open>
  When the summary can be printed in full: the records are mappings whose keys are all
  strings or all numbers, and standard output can encode the header, the rule and the
  text of every key of the summary.
\<close>

definition uniform :: "json list \<Rightarrow> bool" where
  "uniform rs \<longleftrightarrow> list_all str_level rs \<or> list_all num_level rs"

definition summary_printable :: "env \<Rightarrow> LogParser \<Rightarrow> bool" where
  "summary_printable E self \<longleftrightarrow>
     printable E (header (file_path self)) \<and> printable E rule_line \<and>
     list_all (\<lambda>k. printable E (key_text E k)) (first_keys (logs self))"

subsection \<open>Sample environments and files\<close>

text \<open>
  The text \<open>{"level": "s"}\<close> with its line feed, the record it decodes to, and a decoder
  that knows the two lines used below and rejects every other line. Standard output
  encodes UTF-8: every code point except the surrogates.
\<close>

definition quoted :: "pystr \<Rightarrow> pystr" where
  "quoted s = [34] @ s @ [34]"

definition level_text :: "pystr \<Rightarrow> pystr" where
  "level_text s =
     ascii ''{'' @ quoted (ascii ''level'') @ ascii '': '' @ quoted s @ ascii ''}'' @ [10]"

definition level_record :: "json \<Rightarrow> json" where
  "level_record v = JObject [(level_key, v)]"

definition sample_loads :: "pystr \<Rightarrow> exn + json" where
  "sample_loads l =
     (if l = level_text (ascii ''INFO'') then Inr (level_record (JString (ascii ''INFO'')))
      else if l = level_text (ascii ''ERROR'') then Inr (level_record (JString (ascii ''ERROR'')))
      else Inl JSONDecodeError)"

definition utf8 :: "nat \<Rightarrow> bool" where
  "utf8 c \<longleftrightarrow> c < 1114112 \<and> \<not> (55296 \<le> c \<and> c \<le> 57343)"

definition sample_lines :: "pystr list" where
  "sample_lines =
     [level_text (ascii ''INFO''), [32, 10], ascii ''not-json'' @ [10],
      level_text (ascii ''ERROR''), level_text (ascii ''INFO'')]"

definition sample_logs :: "json list" where
  "sample_logs =
     [level_record (JString (ascii ''INFO'')), level_record (JString (ascii ''ERROR'')),
      level_record (JString (ascii ''INFO''))]"

definition sample_path :: pystr where
  "sample_path = ascii ''logs/app.jsonl''"

text \<open>
  The environment of a file with the given lines, read to its end, and a decoder; the
  remaining parts do not matter where it is used.
\<close>

definition file_env :: "pystr list \<Rightarrow> (pystr \<Rightarrow> exn + json) \<Rightarrow> env" where
  "file_env lines loads =
     \<lparr>path_exists = (\<lambda>p. True), open_lines = (\<lambda>p. Inr (lines, None)), json_loads = loads,
      encodes = utf8, float_str = (\<lambda>x. []), exn_text = (\<lambda>e. []), nan_sorted = (\<lambda>c. c)\<rparr>"

definition sample_env :: env where
  "sample_env = file_env sample_lines sample_loads"

text \<open>
  A decoder that returns a number for one line, and one that returns the empty array
  for the line \<open>[]\<close>; a decoder that raises \<open>ValueError\<close> on
  the numeral of 4301 digits, as \<open>json.loads\<close> does under the default limit on the
  digits of an integer; an environment whose standard
  output encodes ASCII only and where the path does not exist.
\<close>

definition scalar_loads :: "pystr \<Rightarrow> exn + json" where
  "scalar_loads l = (if l = ascii ''7'' @ [10] then Inr (JInt 7) else sample_loads l)"

definition scalar_lines :: "pystr list" where
  "scalar_lines = [ascii ''7'' @ [10], [32, 10], level_text (ascii ''INFO'')]"




definition array_loads :: "pystr \<Rightarrow> exn + json" where
  "array_loads l = (if l = ascii ''[]'' @ [10] then Inr (JArray []) else sample_loads l)"

definition ascii_env :: env where
  "ascii_env =
     \<lparr>path_exists = (\<lambda>p. False), open_lines = (\<lambda>p. Inr ([], None)), json_loads = sample_loads,
      encodes = (\<lambda>c. False), float_str = (\<lambda>x. []), exn_text = (\<lambda>e. []),
      nan_sorted = (\<lambda>c. c)\<rparr>"

section \<open>Properties of the loader\<close>

lemma digits_val_str_nat: "digits_val (str_nat n) = n"
proof (induction n rule: str_nat.induct)
  case (1 n)
  show ?case
  proof (cases "n < 10")
    case True
    then show ?thesis by (subst str_nat.simps) simp
  next
    case False
    with 1 have "digits_val (str_nat (n div 10)) = n div 10" by simp
    with False show ?thesis by (subst str_nat.simps) simp
  qed
qed

lemma str_nat_inj: "str_nat m = str_nat n \<Longrightarrow> m = n"
  by (metis digits_val_str_nat)

lemma warning_inj: "warning m = warning n \<Longrightarrow> m = n"
  by (simp add: warning_def str_nat_inj)

lemma str_nat_digits: "list_all (\<lambda>d. 48 \<le> d \<and> d \<le> 57) (str_nat n)"
proof (induction n rule: str_nat.induct)
  case (1 n)
  show ?case
  proof (cases "n < 10")
    case True
    then show ?thesis by (subst str_nat.simps) simp
  next
    case False
    with 1 have "list_all (\<lambda>d. 48 \<le> d \<and> d \<le> 57) (str_nat (n div 10))" by simp
    moreover have "48 + n mod 10 \<le> 57" using mod_less_divisor[of 10 n] by linarith
    ultimately show ?thesis using False by (subst str_nat.simps) simp
  qed
qed

lemma printable_append [simp]:
  "printable E (s @ t) \<longleftrightarrow> printable E s \<and> printable E t"
  by (simp add: printable_def)

lemma printable_str_nat [simp]: "printable E (str_nat n)"
  using str_nat_digits[of n] by (auto simp: printable_def list_all_iff)

lemma printable_warning [simp]: "printable E (warning i)"
  by (simp add: warning_def) (simp add: printable_def ascii_def)

lemma printable_no_entries [simp]: "printable E no_entries"
  by (simp add: no_entries_def printable_def ascii_def)

lemma printable_level_line [simp]:
  "printable E (level_line f n) \<longleftrightarrow> printable E f"
  by (simp add: level_line_def) (simp add: printable_def ascii_def)

lemma printable_ljust [simp]: "printable E (ljust w s) \<longleftrightarrow> printable E s"
  by (simp add: ljust_def) (simp add: printable_def list_all_iff)

lemma printable_total_line [simp]: "printable E (total_line n)"
  by (simp add: total_line_def) (simp add: printable_def ascii_def)

lemma print_ok: "printable E s \<Longrightarrow> print E s out = (out @ [s], Inr ())"
  by (simp add: print_def)

lemma print_fail: "\<not> printable E s \<Longrightarrow> print E s out = (out, Inl UnicodeEncodeError)"
  by (simp add: print_def)

text \<open>The loop, with the warning printed: the text of a warning is ASCII.\<close>

lemma load_loop_Cons:
  "load_loop E i (l # ls) ending parsed out =
     (if strip l = [] then load_loop E (Suc i) ls ending parsed out
      else case json_loads E l of
          Inr v \<Rightarrow> load_loop E (Suc i) ls ending (parsed @ [v]) out
        | Inl e \<Rightarrow> if e = JSONDecodeError
            then load_loop E (Suc i) ls ending parsed (out @ [warning i])
            else (out, Inl e))"
  by (simp add: print_ok split: sum.splits exn.splits)

declare load_loop.simps(2) [simp del]

lemma load_loop_blank:
  "strip l = [] \<Longrightarrow>
   load_loop E i (l # ls) ending parsed out = load_loop E (Suc i) ls ending parsed out"
  by (simp add: load_loop_Cons)

lemma load_loop_decodes:
  "strip l \<noteq> [] \<Longrightarrow> json_loads E l = Inr v \<Longrightarrow>
   load_loop E i (l # ls) ending parsed out = load_loop E (Suc i) ls ending (parsed @ [v]) out"
  by (simp add: load_loop_Cons)

lemma load_loop_malformed:
  "strip l \<noteq> [] \<Longrightarrow> json_loads E l = Inl JSONDecodeError \<Longrightarrow>
   load_loop E i (l # ls) ending parsed out =
     load_loop E (Suc i) ls ending parsed (out @ [warning i])"
  by (simp add: load_loop_Cons)

lemma load_loop_aborts:
  "strip l \<noteq> [] \<Longrightarrow> json_loads E l = Inl e \<Longrightarrow> e \<noteq> JSONDecodeError \<Longrightarrow>
   load_loop E i (l # ls) ending parsed out = (out, Inl e)"
  by (simp add: load_loop_Cons)

lemma line_cases:
  obtains (blank) "strip l = []"
  | (decodes) v where "strip l \<noteq> []" "json_loads E l = Inr v"
  | (malformed) "strip l \<noteq> []" "json_loads E l = Inl JSONDecodeError"
  | (aborts) e where "strip l \<noteq> []" "json_loads E l = Inl e" "e \<noteq> JSONDecodeError"
  by (cases "json_loads E l") auto

text \<open>What the load prints and how it ends, for every file and every decoder.\<close>

lemma load_loop_spec:
  "load_loop E i lines ending parsed out =
     (out @ warnings_of E i (reached E lines),
      case find (aborts E) lines of
        Some l \<Rightarrow> Inl (projl (json_loads E l))
      | None \<Rightarrow> (case ending of Some e \<Rightarrow> Inl e | None \<Rightarrow> Inr (parsed @ values_of E lines)))"
proof (induction lines arbitrary: i parsed out)
  case Nil
  show ?case
    by (simp add: warnings_of_def values_of_def reached_def split: option.splits)
next
  case (Cons l ls)
  show ?case
  proof (cases l rule: line_cases[where E = E])
    case blank
    then have "\<not> aborts E l" "\<not> malformed E l" "\<not> decodes E l"
      by (simp_all add: aborts_def malformed_def decodes_def)
    then show ?thesis
      by (simp add: load_loop_blank[OF blank] Cons.IH warnings_of_def values_of_def reached_def
          split: option.splits)
  next
    case (decodes v)
    then have "\<not> aborts E l" "\<not> malformed E l" "decodes E l"
      by (simp_all add: aborts_def malformed_def decodes_def)
    then show ?thesis using decodes
      by (simp add: load_loop_decodes[OF decodes] Cons.IH warnings_of_def values_of_def
          reached_def split: option.splits)
  next
    case malformed
    then have "\<not> aborts E l" "malformed E l" "\<not> decodes E l"
      by (simp_all add: aborts_def malformed_def decodes_def)
    then show ?thesis
      by (simp add: load_loop_malformed[OF malformed] Cons.IH warnings_of_def values_of_def
          reached_def split: option.splits)
  next
    case (aborts e)
    then have "aborts E l" by (simp add: aborts_def)
    then show ?thesis using aborts
      by (simp add: load_loop_aborts[OF aborts] warnings_of_def reached_def)
  qed
qed

lemma load_logs_spec:
  "open_lines E path = Inr (lines, ending) \<Longrightarrow>
   load_logs E path = (warnings_of E 1 (reached E lines), load_outcome E lines ending)"
  using load_loop_spec[of E 1 lines ending "[]" "[]"]
  by (simp add: load_logs_def load_outcome_def split: option.splits)

lemma reached_all: "\<forall>l\<in>set lines. \<not> aborts E l \<Longrightarrow> reached E lines = lines"
  by (simp add: reached_def)

lemma find_aborts_None: "\<forall>l\<in>set lines. \<not> aborts E l \<Longrightarrow> find (aborts E) lines = None"
  by (simp add: find_None_iff)

lemma count_warnings_of:
  "count_list (warnings_of E i lines) (warning m) =
     (if i \<le> m \<and> m < i + length lines \<and> malformed E (lines ! (m - i)) then 1 else 0)"
proof (induction lines arbitrary: i)
  case Nil
  show ?case by (simp add: warnings_of_def)
next
  case (Cons l ls)
  have step: "warnings_of E i (l # ls) =
     (if malformed E l then [warning i] else []) @ warnings_of E (Suc i) ls"
    by (simp add: warnings_of_def)
  show ?case
  proof (cases "m = i")
    case True
    then show ?thesis using Cons.IH[of "Suc i"] by (auto simp: step)
  next
    case False
    then have "warning i \<noteq> warning m" using warning_inj by blast
    moreover have "m - i = Suc (m - Suc i)" if "i \<le> m" using that False by simp
    ultimately show ?thesis using Cons.IH[of "Suc i"] False by (auto simp: step)
  qed
qed

lemma length_warnings_of:
  "length (warnings_of E i lines) = length (filter (malformed E) lines)"
proof (induction lines arbitrary: i)
  case Nil
  show ?case by (simp add: warnings_of_def)
next
  case (Cons l ls)
  have "warnings_of E i (l # ls) =
     (if malformed E l then [warning i] else []) @ warnings_of E (Suc i) ls"
    by (simp add: warnings_of_def)
  with Cons.IH[of "Suc i"] show ?case by simp
qed

text \<open>Taking lines out that are blank or malformed changes no outcome.\<close>

lemma find_aborts_filter:
  assumes "\<And>l. \<not> P l \<Longrightarrow> \<not> aborts E l"
  shows "find (aborts E) (filter P lines) = find (aborts E) lines"
  using assms by (induction lines) auto

lemma values_of_filter:
  assumes "\<And>l. \<not> P l \<Longrightarrow> \<not> decodes E l"
  shows "values_of E (filter P lines) = values_of E lines"
proof -
  have "filter (decodes E) (filter P lines) = filter (decodes E) lines"
    using assms by (induction lines) auto
  then show ?thesis by (simp add: values_of_def)
qed

lemma load_outcome_filter:
  assumes "\<And>l. \<not> P l \<Longrightarrow> \<not> aborts E l \<and> \<not> decodes E l"
  shows "load_outcome E (filter P lines) ending = load_outcome E lines ending"
  using assms
  by (simp add: load_outcome_def find_aborts_filter values_of_filter split: option.splits)

lemma reached_filter:
  assumes "\<And>l. \<not> P l \<Longrightarrow> \<not> aborts E l"
  shows "reached E (filter P lines) = filter P (reached E lines)"
  unfolding reached_def using assms by (induction lines) auto

section \<open>Properties of the counter\<close>

lemma py_eq_refl [simp]: "py_eq a a"
  by (cases a rule: num_key.cases) (simp_all add: py_eq_def)

lemma py_eq_sym: "py_eq a b \<Longrightarrow> py_eq b a"
  by (auto simp: py_eq_def split: option.splits)

lemma py_eq_trans: "py_eq a b \<Longrightarrow> py_eq b c \<Longrightarrow> py_eq a c"
  by (auto simp: py_eq_def split: option.splits)

lemma py_eq_JString [simp]: "py_eq (JString s) k \<longleftrightarrow> k = JString s"
  by (cases k rule: num_key.cases) (auto simp: py_eq_def)

lemma py_eq_JString2 [simp]: "py_eq k (JString s) \<longleftrightarrow> k = JString s"
  by (cases k rule: num_key.cases) (auto simp: py_eq_def)

lemma py_eq_NaN [simp]: "py_eq k (JFloat NaN) \<longleftrightarrow> k = JFloat NaN"
  by (cases k rule: num_key.cases) (auto simp: py_eq_def)

lemma py_eq_is_str: "py_eq a b \<Longrightarrow> is_str a = is_str b"
  by (cases a rule: num_key.cases; cases b rule: num_key.cases; simp add: py_eq_def)

lemma py_eq_is_number: "py_eq a b \<Longrightarrow> is_number a = is_number b"
  by (cases a rule: num_key.cases; cases b rule: num_key.cases; simp add: py_eq_def)

lemma num_key_is_number: "is_number k \<Longrightarrow> k \<noteq> JFloat NaN \<Longrightarrow> num_key k = Some (num_val k)"
  by (cases k rule: num_key.cases) (simp_all add: num_val_def)

lemma py_eq_num_val:
  "is_number a \<Longrightarrow> is_number b \<Longrightarrow> a \<noteq> JFloat NaN \<Longrightarrow> b \<noteq> JFloat NaN \<Longrightarrow>
   py_eq a b \<longleftrightarrow> num_val a = num_val b"
  by (simp add: py_eq_def num_key_is_number)

lemma sum_counter_add: "sum_list (map snd (counter_add k c)) = Suc (sum_list (map snd c))"
  by (induction c) auto

lemma sum_count_levels:
  "count_levels ls c = Inr c' \<Longrightarrow> sum_list (map snd c') = sum_list (map snd c) + length ls"
proof (induction ls arbitrary: c)
  case Nil
  then show ?case by simp
next
  case (Cons l ls)
  then show ?case
    by (auto split: sum.splits if_splits simp: sum_counter_add)
qed

lemma counter_get_add:
  "counter_get (counter_add k c) k' = counter_get c k' + (if py_eq k k' then 1 else 0)"
proof (induction c)
  case Nil
  show ?case by simp
next
  case (Cons a c)
  obtain k0 n0 where a: "a = (k0, n0)" by (cases a)
  show ?case using Cons.IH
    by (auto simp: a dest: py_eq_trans py_eq_sym)
qed

lemma counter_get_count_levels:
  "count_levels ls c = Inr c' \<Longrightarrow>
   counter_get c' k = counter_get c k + length (filter (counted_as k) ls)"
proof (induction ls arbitrary: c)
  case Nil
  then show ?case by simp
next
  case (Cons l ls)
  then show ?case
    by (auto split: sum.splits if_splits simp: counter_get_add counted_as_def)
qed

lemma count_levels_succeeds:
  "(\<exists>c'. count_levels ls c = Inr c') \<longleftrightarrow> list_all countable_log ls"
proof (induction ls arbitrary: c)
  case Nil
  show ?case by simp
next
  case (Cons l ls)
  then show ?case
    by (auto split: sum.splits simp: countable_log_def)
qed

lemma count_levels_fails:
  "\<not> list_all countable_log ls \<Longrightarrow> \<exists>e. count_levels ls c = Inl e"
  using count_levels_succeeds[of ls c] by (cases "count_levels ls c") auto

lemma keys_counter_add:
  "fst ` set (counter_add k c) \<subseteq> insert k (fst ` set c)"
  by (induction k c rule: counter_add.induct) auto

lemma keys_counter_add_old: "fst ` set c \<subseteq> fst ` set (counter_add k c)"
  by (induction k c rule: counter_add.induct) auto

lemma key_present_counter_add: "\<exists>k' \<in> fst ` set (counter_add k c). py_eq k' k"
  by (induction k c rule: counter_add.induct) auto

lemma keys_differ_counter_add: "keys_differ c \<Longrightarrow> keys_differ (counter_add k c)"
proof (induction c)
  case Nil
  show ?case by simp
next
  case (Cons a c)
  obtain k0 n0 where a: "a = (k0, n0)" by (cases a)
  from Cons.prems have d: "\<forall>(k', n') \<in> set c. \<not> py_eq k0 k'" and kd: "keys_differ c"
    by (auto simp: a)
  show ?case
  proof (cases "py_eq k0 k")
    case True
    then show ?thesis using d kd by (simp add: a)
  next
    case False
    have "\<not> py_eq k0 k'" if "(k', n') \<in> set (counter_add k c)" for k' n'
    proof -
      from that have "k' \<in> fst ` set (counter_add k c)" by force
      with keys_counter_add have "k' = k \<or> k' \<in> fst ` set c" by blast
      then show ?thesis using False d by auto
    qed
    then show ?thesis using False Cons.IH[OF kd] by (auto simp: a)
  qed
qed

lemma counter_get_member:
  "keys_differ c \<Longrightarrow> (k, n) \<in> set c \<Longrightarrow> counter_get c k = n"
proof (induction c)
  case Nil
  then show ?case by simp
next
  case (Cons a c)
  obtain k0 n0 where a: "a = (k0, n0)" by (cases a)
  show ?case
  proof (cases "(k, n) \<in> set c")
    case True
    with Cons.prems have "\<not> py_eq k0 k" by (auto simp: a)
    then show ?thesis using Cons True by (simp add: a)
  next
    case False
    with Cons.prems have "(k, n) = (k0, n0)" by (simp add: a)
    then show ?thesis by (simp add: a)
  qed
qed

lemma keys_differ_count_levels:
  "count_levels ls c = Inr c' \<Longrightarrow> keys_differ c \<Longrightarrow> keys_differ c'"
proof (induction ls arbitrary: c)
  case Nil
  then show ?case by simp
next
  case (Cons l ls)
  then show ?case
    by (auto split: sum.splits if_splits simp: keys_differ_counter_add)
qed

text \<open>Every key of the counter is the grouping key of some record (or was there before).\<close>

lemma keys_count_levels:
  "count_levels ls c = Inr c' \<Longrightarrow>
   fst ` set c' \<subseteq> fst ` set c \<union> {k. \<exists>l \<in> set ls. get_level l = Inr k}"
proof (induction ls arbitrary: c)
  case Nil
  then show ?case by auto
next
  case (Cons l ls)
  from Cons.prems obtain k where k: "get_level l = Inr k" "hashable k"
    and rest: "count_levels ls (counter_add k c) = Inr c'"
    by (auto split: sum.splits if_splits)
  from Cons.IH[OF rest] keys_counter_add[of k c] k show ?case
    by auto
qed

lemma keys_count_levels_old:
  "count_levels ls c = Inr c' \<Longrightarrow> fst ` set c \<subseteq> fst ` set c'"
proof (induction ls arbitrary: c)
  case Nil
  then show ?case by auto
next
  case (Cons l ls)
  from Cons.prems obtain k where k: "get_level l = Inr k" "hashable k"
    and rest: "count_levels ls (counter_add k c) = Inr c'"
    by (auto split: sum.splits if_splits)
  from Cons.IH[OF rest] keys_counter_add_old[of c k] show ?case by blast
qed

lemma key_present_count_levels:
  "count_levels ls c = Inr c' \<Longrightarrow> l \<in> set ls \<Longrightarrow> get_level l = Inr k \<Longrightarrow>
   \<exists>k' \<in> fst ` set c'. py_eq k' k"
proof (induction ls arbitrary: c)
  case Nil
  then show ?case by simp
next
  case (Cons a ls)
  from Cons.prems(1) obtain ka where ka: "get_level a = Inr ka" "hashable ka"
    and rest: "count_levels ls (counter_add ka c) = Inr c'"
    by (auto split: sum.splits if_splits)
  show ?case
  proof (cases "l \<in> set ls")
    case True
    from Cons.IH[OF rest True Cons.prems(3)] show ?thesis .
  next
    case False
    with Cons.prems have "a = l" by simp
    with ka Cons.prems have "ka = k" by simp
    with key_present_counter_add[of ka c] keys_count_levels_old[OF rest]
    show ?thesis by blast
  qed
qed

text \<open>The counter is the level summary of the specification.\<close>

lemma keys_counter_add_insert: "map fst (counter_add k c) = insert_key k (map fst c)"
  by (induction k c rule: counter_add.induct) (auto simp: insert_key_def)

lemma level_of_get: "get_level r = Inr k \<Longrightarrow> level_of r = k"
  by (simp add: level_of_def)

lemma keys_count_levels_foldl:
  "count_levels rs c = Inr c' \<Longrightarrow>
   map fst c' = foldl (\<lambda>seen r. insert_key (level_of r) seen) (map fst c) rs"
proof (induction rs arbitrary: c)
  case Nil
  then show ?case by simp
next
  case (Cons r rs)
  from Cons.prems obtain k where k: "get_level r = Inr k" "hashable k"
    and rest: "count_levels rs (counter_add k c) = Inr c'"
    by (auto split: sum.splits if_splits)
  from Cons.IH[OF rest] k show ?case
    by (simp add: keys_counter_add_insert level_of_get)
qed

lemma count_levels_summary:
  assumes "count_levels rs [] = Inr c"
  shows "c = level_summary rs"
proof -
  have kd: "keys_differ c" using keys_differ_count_levels[OF assms] by simp
  have keys: "map fst c = first_keys rs"
    using keys_count_levels_foldl[OF assms] by (simp add: first_keys_def)
  have "map (\<lambda>x. (fst x, length (filter (counted_as (fst x)) rs))) c = c"
  proof (rule map_idI)
    fix x assume x: "x \<in> set c"
    obtain k n where kn: "x = (k, n)" by (cases x)
    from counter_get_member[OF kd] x kn have "counter_get c k = n" by simp
    with counter_get_count_levels[OF assms, of k] kn
    show "(fst x, length (filter (counted_as (fst x)) rs)) = x" by simp
  qed
  then have "c = map (\<lambda>k. (k, length (filter (counted_as k) rs))) (map fst c)"
    by (simp add: comp_def)
  with keys show ?thesis by (simp add: level_summary_def)
qed

lemma count_levels_iff:
  "count_levels rs [] = Inr c \<longleftrightarrow> list_all countable_log rs \<and> c = level_summary rs"
  using count_levels_succeeds[of rs "[]"] count_levels_summary[of rs] by auto

section \<open>Properties of sorting and printing\<close>

lemma map_insort_key: "map f (insort_key f x xs) = insort (f x) (map f xs)"
  by (induction xs) auto

lemma map_sort_key: "map f (sort_key f xs) = sort (map f xs)"
  by (induction xs) (auto simp: map_insort_key)

lemma sum_list_mset_eq:
  "mset xs = mset ys \<Longrightarrow> sum_list (map f xs) = (sum_list (map f ys) :: nat)"
  by (metis mset_map sum_mset_sum_list)

lemma sorted_items_mset: "sorted_items E c = Inr items \<Longrightarrow> mset items = mset c"
  by (auto simp: sorted_items_def split: if_splits)

lemma sorted_items_set: "sorted_items E c = Inr items \<Longrightarrow> set items = set c"
  using sorted_items_mset mset_eq_setD by blast

lemma sorted_items_sum:
  "sorted_items E c = Inr items \<Longrightarrow> sum_list (map snd items) = sum_list (map snd c)"
  using sorted_items_mset sum_list_mset_eq by blast

lemma sorted_items_returns:
  "(\<exists>items. sorted_items E c = Inr items) \<longleftrightarrow>
     length c \<le> 1 \<or> list_all (\<lambda>x. is_str (fst x)) c \<or> list_all (\<lambda>x. is_number (fst x)) c"
  by (auto simp: sorted_items_def split_def)

lemma sorted_items_fails:
  "\<not> length c \<le> 1 \<Longrightarrow> \<not> list_all (\<lambda>x. is_str (fst x)) c \<Longrightarrow>
   \<not> list_all (\<lambda>x. is_number (fst x)) c \<Longrightarrow> sorted_items E c = Inl TypeError"
  by (simp add: sorted_items_def split_def)

lemma sorted_items_str:
  assumes "sorted_items E c = Inr items" and "list_all (\<lambda>x. is_str (fst x)) c"
  shows "sorted (map (\<lambda>x. str_val (fst x)) items)"
proof (cases "length c \<le> 1")
  case True
  with assms(1) have "items = c" by (simp add: sorted_items_def)
  with True show ?thesis by (simp add: sorted01)
next
  case False
  with assms have "items = sort_key (\<lambda>x. str_val (fst x)) c"
    by (auto simp: sorted_items_def split_def split: if_splits)
  then show ?thesis by (simp add: map_sort_key)
qed

lemma str_not_number: "is_str k \<Longrightarrow> \<not> is_number k"
  by (cases k) simp_all

lemma sorted_items_num:
  assumes "sorted_items E c = Inr items" and "list_all (\<lambda>x. is_number (fst x)) c"
    and "\<forall>x\<in>set c. fst x \<noteq> JFloat NaN"
  shows "sorted (map (\<lambda>x. num_val (fst x)) items)"
proof (cases "length c \<le> 1")
  case True
  with assms(1) have "items = c" by (simp add: sorted_items_def)
  with True show ?thesis by (simp add: sorted01)
next
  case False
  then obtain x where "x \<in> set c" by (cases c) auto
  with assms(2) have "\<not> list_all (\<lambda>x. is_str (fst x)) c"
    using str_not_number by (auto simp: list_all_iff)
  moreover from assms(3) have "\<not> list_ex (\<lambda>(k, n). k = JFloat NaN) c"
    by (auto simp: list_ex_iff)
  ultimately have "items = sort_key (\<lambda>x. num_val (fst x)) c"
    using assms(1,2) False by (simp add: sorted_items_def split_def)
  then show ?thesis by (simp add: map_sort_key)
qed

lemma format_level_ok:
  "is_str k \<or> is_number k \<Longrightarrow> format_level E k = Inr (field_of E k)"
  by (cases k) (simp_all add: field_of_def)

lemma format_level_fail:
  "\<not> is_str k \<Longrightarrow> \<not> is_number k \<Longrightarrow> format_level E k = Inl TypeError"
  by (cases k) simp_all

text \<open>An item can be printed when its key has a format and its line can be encoded.\<close>

lemma print_levels_step:
  "print_levels E ((k, n) # rest) t out =
     (if \<not> (is_str k \<or> is_number k) then (out, Inl TypeError)
      else if \<not> printable E (field_of E k) then (out, Inl UnicodeEncodeError)
      else print_levels E rest (t + n) (out @ [item_line E (k, n)]))"
  by (auto simp: format_level_ok format_level_fail print_def item_line_def)

declare print_levels.simps(2) [simp del]

lemma print_levels_ok:
  "list_all (\<lambda>x. (is_str (fst x) \<or> is_number (fst x)) \<and> printable E (field_of E (fst x))) items
   \<Longrightarrow> print_levels E items t out =
     (out @ map (item_line E) items, Inr (t + sum_list (map snd items)))"
proof (induction items arbitrary: t out)
  case Nil
  show ?case by simp
next
  case (Cons a items)
  obtain k n where a: "a = (k, n)" by (cases a)
  from Cons show ?case by (simp add: a print_levels_step)
qed

lemma print_levels_Inr:
  "print_levels E items t out = (out', Inr t') \<Longrightarrow>
   list_all (\<lambda>x. (is_str (fst x) \<or> is_number (fst x)) \<and> printable E (field_of E (fst x))) items"
proof (induction items arbitrary: t out)
  case Nil
  show ?case by simp
next
  case (Cons a items)
  obtain k n where a: "a = (k, n)" by (cases a)
  from Cons.prems have ok: "is_str k \<or> is_number k" "printable E (field_of E k)"
    and rest: "print_levels E items (t + n) (out @ [item_line E (k, n)]) = (out', Inr t')"
    by (auto simp: a print_levels_step split: if_splits)
  from Cons.IH[OF rest] ok show ?case by (simp add: a)
qed

text \<open>What a run of \<open>display_summary\<close> that returns looks like, and when there is one.\<close>

lemma display_summary_Inr_iff:
  assumes ne: "logs self \<noteq> []"
  shows "display_summary E self = (out, Inr ()) \<longleftrightarrow>
    list_all countable_log (logs self) \<and>
    printable E (header (file_path self)) \<and> printable E rule_line \<and>
    (\<exists>items. sorted_items E (level_summary (logs self)) = Inr items \<and> items_ok E items \<and>
       out = [header (file_path self), rule_line] @ map (item_line E) items @
             [rule_line, total_line (length (logs self))])"
    (is "?L \<longleftrightarrow> ?R")
proof
  assume L: ?L
  from L ne obtain c where c: "count_levels (logs self) [] = Inr c"
    by (auto simp: display_summary_def split: sum.splits)
  then have cs: "list_all countable_log (logs self)" "c = level_summary (logs self)"
    by (simp_all add: count_levels_iff)
  from L ne c have ph: "printable E (header (file_path self))"
    by (auto simp: display_summary_def print_def split: if_splits)
  with L ne c have pr: "printable E rule_line"
    by (auto simp: display_summary_def print_def split: if_splits)
  with L ne c ph obtain items where it: "sorted_items E c = Inr items"
    by (auto simp: display_summary_def print_def split: sum.splits)
  with L ne c ph pr obtain out3 t where
    pl: "print_levels E items 0 [header (file_path self), rule_line] = (out3, Inr t)"
    and out: "out = out3 @ [rule_line, total_line t]"
    by (auto simp: display_summary_def print_def split: sum.splits prod.splits)
  from print_levels_Inr[OF pl] have ok: "items_ok E items" by (simp add: items_ok_def)
  from print_levels_ok[OF ok[unfolded items_ok_def], of 0 "[header (file_path self), rule_line]"] pl
  have "out3 = [header (file_path self), rule_line] @ map (item_line E) items"
    and "t = sum_list (map snd items)" by auto
  moreover have "sum_list (map snd items) = length (logs self)"
    using sorted_items_sum[OF it] sum_count_levels[OF c] by simp
  ultimately have "out = [header (file_path self), rule_line] @ map (item_line E) items @
             [rule_line, total_line (length (logs self))]" using out by simp
  with cs ph pr it ok show ?R by auto
next
  assume R: ?R
  then obtain items where cl: "list_all countable_log (logs self)"
    and ph: "printable E (header (file_path self))" and pr: "printable E rule_line"
    and it: "sorted_items E (level_summary (logs self)) = Inr items"
    and ok: "items_ok E items"
    and out: "out = [header (file_path self), rule_line] @ map (item_line E) items @
             [rule_line, total_line (length (logs self))]" by blast
  from cl have c: "count_levels (logs self) [] = Inr (level_summary (logs self))"
    by (simp add: count_levels_iff)
  have "sum_list (map snd items) = length (logs self)"
    using sorted_items_sum[OF it] sum_count_levels[OF c] by simp
  with print_levels_ok[OF ok[unfolded items_ok_def], of 0 "[header (file_path self), rule_line]"]
  have pl: "print_levels E items 0 [header (file_path self), rule_line] =
      ([header (file_path self), rule_line] @ map (item_line E) items, Inr (length (logs self)))"
    by simp
  from ne c ph pr it pl out show ?L
    by (simp add: display_summary_def print_ok)
qed

lemma str_int_bit: "str_int 1 = ascii ''1''" "str_int 0 = ascii ''0''"
  by (simp_all add: str_int_def ascii_def str_nat.simps[of "Suc 0"] str_nat.simps[of 0])

lemma field_of_text:
  "is_str k \<or> is_number k \<Longrightarrow> field_of E k = ljust 10 (key_text E k)"
  by (cases k) (simp_all add: field_of_def str_int_bit)

lemma printable_field:
  "is_str k \<or> is_number k \<Longrightarrow> printable E (field_of E k) \<longleftrightarrow> printable E (key_text E k)"
  by (simp add: field_of_text)

lemma keys_kind_forward:
  assumes "count_levels ls [] = Inr c"
    and "\<And>l. l \<in> set ls \<Longrightarrow> \<exists>k. get_level l = Inr k \<and> P k"
  shows "\<forall>x \<in> set c. P (fst x)"
proof
  fix x assume "x \<in> set c"
  then have "fst x \<in> fst ` set c" by simp
  with keys_count_levels[OF assms(1)] obtain l where "l \<in> set ls" "get_level l = Inr (fst x)"
    by auto
  with assms(2) show "P (fst x)" by fastforce
qed

lemma keys_kind_backward:
  assumes "count_levels ls [] = Inr c"
    and "\<forall>x \<in> set c. P (fst x)"
    and "\<And>a b. py_eq a b \<Longrightarrow> P a = P b"
    and "l \<in> set ls"
  shows "\<exists>k. get_level l = Inr k \<and> P k"
proof -
  from count_levels_succeeds[of ls "[]"] assms(1) have "list_all countable_log ls" by blast
  with assms(4) have "countable_log l" by (simp add: list_all_iff)
  then obtain k where k: "get_level l = Inr k"
    by (cases "get_level l") (simp_all add: countable_log_def)
  from key_present_count_levels[OF assms(1,4) k] obtain x where "x \<in> set c" "py_eq (fst x) k"
    by auto
  with assms(2,3) have "P k" by blast
  with k show ?thesis by simp
qed

lemma str_level_iff: "str_level l \<longleftrightarrow> (\<exists>k. get_level l = Inr k \<and> is_str k)"
  by (auto simp: str_level_def split: sum.splits)

lemma num_level_iff: "num_level l \<longleftrightarrow> (\<exists>k. get_level l = Inr k \<and> is_number k)"
  by (auto simp: num_level_def split: sum.splits)

lemma is_str_hashable: "is_str k \<Longrightarrow> hashable k"
  by (cases k) simp_all

lemma is_number_hashable: "is_number k \<Longrightarrow> hashable k"
  by (cases k) simp_all

lemma uniform_countable: "uniform rs \<Longrightarrow> list_all countable_log rs"
  by (auto simp: uniform_def list_all_iff str_level_def num_level_def countable_log_def
      is_str_hashable is_number_hashable split: sum.splits)

lemma summary_keys: "map fst (level_summary rs) = first_keys rs"
  by (simp add: level_summary_def comp_def)

lemma uniform_keys:
  assumes "uniform rs"
  shows "list_all (\<lambda>x. is_str (fst x)) (level_summary rs) \<or>
         list_all (\<lambda>x. is_number (fst x)) (level_summary rs)"
proof -
  from uniform_countable[OF assms]
  have c: "count_levels rs [] = Inr (level_summary rs)" by (simp add: count_levels_iff)
  from assms show ?thesis unfolding uniform_def
  proof
    assume "list_all str_level rs"
    then have "\<And>l. l \<in> set rs \<Longrightarrow> \<exists>k. get_level l = Inr k \<and> is_str k"
      by (simp add: list_all_iff str_level_iff)
    from keys_kind_forward[OF c this] show ?thesis by (simp add: list_all_iff)
  next
    assume "list_all num_level rs"
    then have "\<And>l. l \<in> set rs \<Longrightarrow> \<exists>k. get_level l = Inr k \<and> is_number k"
      by (simp add: list_all_iff num_level_iff)
    from keys_kind_forward[OF c this] show ?thesis by (simp add: list_all_iff)
  qed
qed

lemma keys_uniform:
  assumes c: "count_levels rs [] = Inr (level_summary rs)"
    and "list_all (\<lambda>x. is_str (fst x)) (level_summary rs) \<or>
         list_all (\<lambda>x. is_number (fst x)) (level_summary rs)"
  shows "uniform rs"
  using assms(2)
proof
  assume "list_all (\<lambda>x. is_str (fst x)) (level_summary rs)"
  then have "\<forall>x\<in>set (level_summary rs). is_str (fst x)" by (simp add: list_all_iff)
  from keys_kind_backward[OF c this py_eq_is_str]
  show ?thesis by (simp add: uniform_def list_all_iff str_level_iff)
next
  assume "list_all (\<lambda>x. is_number (fst x)) (level_summary rs)"
  then have "\<forall>x\<in>set (level_summary rs). is_number (fst x)" by (simp add: list_all_iff)
  from keys_kind_backward[OF c this py_eq_is_number]
  show ?thesis by (simp add: uniform_def list_all_iff num_level_iff)
qed

text \<open>When \<open>display_summary\<close> returns on a collection that is not empty.\<close>

lemma display_summary_returns:
  assumes ne: "logs self \<noteq> []"
  shows "(\<exists>out. display_summary E self = (out, Inr ())) \<longleftrightarrow>
     uniform (logs self) \<and> summary_printable E self"
proof
  assume "\<exists>out. display_summary E self = (out, Inr ())"
  then obtain out where "display_summary E self = (out, Inr ())" ..
  with display_summary_Inr_iff[OF ne, of E out] obtain items where
    cl: "list_all countable_log (logs self)"
    and ph: "printable E (header (file_path self))" and pr: "printable E rule_line"
    and it: "sorted_items E (level_summary (logs self)) = Inr items"
    and ok: "items_ok E items" by blast
  let ?c = "level_summary (logs self)"
  from cl have c: "count_levels (logs self) [] = Inr ?c" by (simp add: count_levels_iff)
  from ok sorted_items_set[OF it]
  have okc: "\<forall>x\<in>set ?c. (is_str (fst x) \<or> is_number (fst x)) \<and> printable E (field_of E (fst x))"
    by (simp add: items_ok_def list_all_iff)
  then have "\<forall>k\<in>set (map fst ?c). printable E (key_text E k)"
    by (auto simp: printable_field)
  then have sp: "summary_printable E self"
    using ph pr by (simp only: summary_keys) (simp add: summary_printable_def list_all_iff)
  have "list_all (\<lambda>x. is_str (fst x)) ?c \<or> list_all (\<lambda>x. is_number (fst x)) ?c"
  proof (cases "length ?c \<le> 1")
    case True
    then have "?c = [] \<or> (\<exists>x. ?c = [x])" by (cases ?c) auto
    with okc show ?thesis by auto
  next
    case False
    with sorted_items_returns[of E ?c] it show ?thesis by auto
  qed
  from keys_uniform[OF c this] sp show "uniform (logs self) \<and> summary_printable E self" ..
next
  assume a: "uniform (logs self) \<and> summary_printable E self"
  let ?c = "level_summary (logs self)"
  from a have cl: "list_all countable_log (logs self)" by (simp add: uniform_countable)
  from a have ks: "list_all (\<lambda>x. is_str (fst x)) ?c \<or> list_all (\<lambda>x. is_number (fst x)) ?c"
    by (simp add: uniform_keys)
  with sorted_items_returns[of E ?c] obtain items where it: "sorted_items E ?c = Inr items"
    by auto
  from a have "\<forall>k\<in>set (map fst ?c). printable E (key_text E k)"
    by (simp only: summary_keys) (simp add: summary_printable_def list_all_iff)
  moreover from ks have fm: "\<forall>x\<in>set ?c. is_str (fst x) \<or> is_number (fst x)"
    by (auto simp: list_all_iff)
  ultimately have "\<forall>x\<in>set ?c. (is_str (fst x) \<or> is_number (fst x)) \<and>
      printable E (field_of E (fst x))"
    by (simp add: printable_field)
  with sorted_items_set[OF it] have ok: "items_ok E items"
    by (simp add: items_ok_def list_all_iff)
  from a have "printable E (header (file_path self))" "printable E rule_line"
    by (simp_all add: summary_printable_def)
  with display_summary_Inr_iff[OF ne, of E] cl it ok
  show "\<exists>out. display_summary E self = (out, Inr ())" by blast
qed

section \<open>Properties of the level summary and of the report\<close>

lemma keys_differ_unique:
  "keys_differ c \<Longrightarrow> x \<in> set c \<Longrightarrow> y \<in> set c \<Longrightarrow> py_eq (fst x) (fst y) \<Longrightarrow> x = y"
proof (induction c)
  case Nil
  then show ?case by simp
next
  case (Cons a c)
  obtain k n where a: "a = (k, n)" by (cases a)
  from Cons.prems(1) have d: "\<forall>z \<in> set c. \<not> py_eq k (fst z)" and kd: "keys_differ c"
    by (auto simp: a)
  show ?case
  proof (cases "x = a")
    case xa: True
    show ?thesis
    proof (cases "y = a")
      case True
      with xa show ?thesis by simp
    next
      case False
      with Cons.prems(3) have "y \<in> set c" by simp
      with d Cons.prems(4) xa a show ?thesis by auto
    qed
  next
    case xa: False
    with Cons.prems(2) have xc: "x \<in> set c" by simp
    show ?thesis
    proof (cases "y = a")
      case True
      with d xc Cons.prems(4) a py_eq_sym show ?thesis by fastforce
    next
      case False
      with Cons.prems(3) have "y \<in> set c" by simp
      from Cons.IH[OF kd xc this Cons.prems(4)] show ?thesis .
    qed
  qed
qed

lemma keys_differ_distinct: "keys_differ c \<Longrightarrow> distinct c"
proof (induction c)
  case Nil
  show ?case by simp
next
  case (Cons a c)
  obtain k n where a: "a = (k, n)" by (cases a)
  from Cons.prems have "\<forall>z \<in> set c. \<not> py_eq k (fst z)" "keys_differ c" by (auto simp: a)
  moreover have "py_eq k k" by simp
  ultimately show ?case using Cons.IH a by fastforce
qed

lemma summary_keys_differ:
  "list_all countable_log rs \<Longrightarrow> keys_differ (level_summary rs)"
  using keys_differ_count_levels[of rs "[]" "level_summary rs"] by (simp add: count_levels_iff)

lemma summary_member:
  assumes "list_all countable_log rs" and "x \<in> set (level_summary rs)"
  shows "snd x = length (filter (counted_as (fst x)) rs)"
    and "\<exists>r\<in>set rs. get_level r = Inr (fst x)"
    and "0 < snd x"
proof -
  from assms(1) have c: "count_levels rs [] = Inr (level_summary rs)"
    by (simp add: count_levels_iff)
  from assms(2) show n: "snd x = length (filter (counted_as (fst x)) rs)"
    by (auto simp: level_summary_def)
  from assms(2) have "fst x \<in> fst ` set (level_summary rs)" by simp
  with keys_count_levels[OF c] show r: "\<exists>r\<in>set rs. get_level r = Inr (fst x)" by auto
  then obtain r where "r \<in> set rs" "counted_as (fst x) r" by (auto simp: counted_as_def)
  then have "filter (counted_as (fst x)) rs \<noteq> []" by (auto simp: filter_empty_conv)
  with n show "0 < snd x" by simp
qed

lemma summary_covers:
  assumes "list_all countable_log rs" and "r \<in> set rs"
  shows "\<exists>x\<in>set (level_summary rs). counted_as (fst x) r"
proof -
  from assms(1) have c: "count_levels rs [] = Inr (level_summary rs)"
    by (simp add: count_levels_iff)
  from assms have "countable_log r" by (simp add: list_all_iff)
  then obtain k where k: "get_level r = Inr k"
    by (cases "get_level r") (simp_all add: countable_log_def)
  from key_present_count_levels[OF c assms(2) k] k show ?thesis
    by (auto simp: counted_as_def dest: py_eq_sym)
qed

lemma counted_as_unique:
  assumes "keys_differ c" and "x \<in> set c" and "y \<in> set c"
    and "counted_as (fst x) r" and "counted_as (fst y) r"
  shows "x = y"
proof -
  from assms(4,5) obtain k where "py_eq k (fst x)" "py_eq k (fst y)"
    by (auto simp: counted_as_def split: sum.splits)
  then have "py_eq (fst x) (fst y)" using py_eq_sym py_eq_trans by blast
  from keys_differ_unique[OF assms(1-3) this] show ?thesis .
qed

text \<open>The lines as text.\<close>

lemma item_line_text:
  "is_str (fst x) \<or> is_number (fst x) \<Longrightarrow> item_line E x = report_line E x"
  by (simp add: item_line_def report_line_def field_of_text level_line_def ljust_def ascii_def)

lemma total_line_text: "total_line n = ascii ''Total     : '' @ str_nat n @ [10]"
  by (simp add: total_line_def level_line_def ljust_def ascii_def numeral_eq_Suc)

lemma map_item_line:
  "items_ok E items \<Longrightarrow> map (item_line E) items = map (report_line E) items"
  by (simp add: items_ok_def list_all_iff item_line_text)

text \<open>The report of a collection whose summary can be printed.\<close>

lemma report_items:
  assumes ne: "logs self \<noteq> []" and un: "uniform (logs self)"
    and sp: "summary_printable E self"
  obtains items where
    "display_summary E self =
       ([header (file_path self), rule_line] @ map (report_line E) items @
        [rule_line, ascii ''Total     : '' @ str_nat (length (logs self)) @ [10]], Inr ())"
    and "sorted_items E (level_summary (logs self)) = Inr items"
    and "mset items = mset (level_summary (logs self))"
proof -
  from display_summary_returns[OF ne, of E] un sp
  obtain out where "display_summary E self = (out, Inr ())" by blast
  with display_summary_Inr_iff[OF ne, of E out] obtain items where
    it: "sorted_items E (level_summary (logs self)) = Inr items" and ok: "items_ok E items"
    and "display_summary E self = ([header (file_path self), rule_line] @
       map (item_line E) items @ [rule_line, total_line (length (logs self))], Inr ())"
    by auto
  then have "display_summary E self =
       ([header (file_path self), rule_line] @ map (report_line E) items @
        [rule_line, ascii ''Total     : '' @ str_nat (length (logs self)) @ [10]], Inr ())"
    by (simp add: map_item_line total_line_text)
  from that[OF this it sorted_items_mset[OF it]] show thesis .
qed

lemma str_key: "is_str k \<Longrightarrow> k = JString (str_val k)"
  by (cases k) simp_all

lemma strict_str_order:
  assumes "sorted_items E c = Inr items" and "list_all (\<lambda>x. is_str (fst x)) c"
    and "keys_differ c"
  shows "sorted_wrt (<) (map (\<lambda>x. str_val (fst x)) items)"
proof -
  have si: "set items = set c" by (rule sorted_items_set[OF assms(1)])
  have "distinct items"
    using keys_differ_distinct[OF assms(3)] sorted_items_mset[OF assms(1)]
    by (metis mset_eq_imp_distinct_iff)
  moreover have "inj_on (\<lambda>x. str_val (fst x)) (set items)"
  proof (rule inj_onI)
    fix x y assume x: "x \<in> set items" and y: "y \<in> set items"
      and e: "str_val (fst x) = str_val (fst y)"
    from x y si assms(2) have "is_str (fst x)" "is_str (fst y)" by (auto simp: list_all_iff)
    with e have "fst x = fst y" using str_key by metis
    then have "py_eq (fst x) (fst y)" by simp
    from keys_differ_unique[OF assms(3) _ _ this] x y si show "x = y" by simp
  qed
  ultimately have "distinct (map (\<lambda>x. str_val (fst x)) items)" by (simp add: distinct_map)
  with sorted_items_str[OF assms(1,2)] show ?thesis by (simp add: strict_sorted_iff)
qed

lemma strict_num_order:
  assumes "sorted_items E c = Inr items" and "list_all (\<lambda>x. is_number (fst x)) c"
    and "\<forall>x\<in>set c. fst x \<noteq> JFloat NaN" and "keys_differ c"
  shows "sorted_wrt (<) (map (\<lambda>x. num_val (fst x)) items)"
proof -
  have si: "set items = set c" by (rule sorted_items_set[OF assms(1)])
  have "distinct items"
    using keys_differ_distinct[OF assms(4)] sorted_items_mset[OF assms(1)]
    by (metis mset_eq_imp_distinct_iff)
  moreover have "inj_on (\<lambda>x. num_val (fst x)) (set items)"
  proof (rule inj_onI)
    fix x y assume x: "x \<in> set items" and y: "y \<in> set items"
      and e: "num_val (fst x) = num_val (fst y)"
    from x y si assms(2,3) have "is_number (fst x)" "is_number (fst y)"
      "fst x \<noteq> JFloat NaN" "fst y \<noteq> JFloat NaN" by (auto simp: list_all_iff)
    with e have "py_eq (fst x) (fst y)" by (simp add: py_eq_num_val)
    from keys_differ_unique[OF assms(4) _ _ this] x y si show "x = y" by simp
  qed
  ultimately have "distinct (map (\<lambda>x. num_val (fst x)) items)" by (simp add: distinct_map)
  with sorted_items_num[OF assms(1-3)] show ?thesis by (simp add: strict_sorted_iff)
qed

lemma summary_no_nan:
  assumes "list_all countable_log rs" and "\<not> list_ex nan_level rs"
  shows "\<forall>x\<in>set (level_summary rs). fst x \<noteq> JFloat NaN"
proof
  fix x assume "x \<in> set (level_summary rs)"
  from summary_member(2)[OF assms(1) this] obtain r where "r \<in> set rs" "get_level r = Inr (fst x)"
    by blast
  with assms(2) show "fst x \<noteq> JFloat NaN" by (auto simp: list_ex_iff nan_level_def)
qed

section \<open>The sample files, evaluated\<close>

lemmas sample_defs =
  sample_loads_def sample_lines_def sample_logs_def sample_path_def level_text_def
  level_record_def quoted_def ascii_def level_key_def UNKNOWN_def

lemma file_env_simps [simp]:
  "json_loads (file_env ls f) = f" "open_lines (file_env ls f) p = Inr (ls, None)"
  "path_exists (file_env ls f) p" "encodes (file_env ls f) = utf8"
  by (simp_all add: file_env_def)

lemma strip_blank: "strip [32, 10] = []"
  by (simp add: strip_def isspace_def)

lemma strip_nonblank: "\<not> isspace c \<Longrightarrow> strip (c # s) \<noteq> []"
  by (simp add: strip_def)




lemma sample_nonblank:
  "filter (\<lambda>l. strip l \<noteq> []) sample_lines =
     [level_text (ascii ''INFO''), ascii ''not-json'' @ [10],
      level_text (ascii ''ERROR''), level_text (ascii ''INFO'')]"
  by (simp add: sample_defs strip_nonblank strip_blank isspace_def)

lemma sample_open: "open_lines sample_env sample_path = Inr (sample_lines, None)"
  by (simp add: sample_env_def)

section \<open>The loader: claims\<close>




text \<open>
  C5. For every input file, the loader appends every successfully decoded non-blank
  line's value to the result (whether or not it is an object), so the collection keeps
  the file's line order and its length equals the number of syntactically valid,
  non-blank lines.

  A line is valid when the decoder returns a value on it. A collection is returned when
  the file is read to its end and no line makes the decoder raise another exception
  than \<open>JSONDecodeError\<close>; it then holds the values of the valid non-blank lines, of any
  kind, in file order.
\<close>

theorem collection_is_decoded_lines:
  assumes "open_lines E path = Inr (lines, None)" and "\<forall>l\<in>set lines. \<not> aborts E l"
  shows "\<exists>parsed. snd (load_logs E path) = Inr parsed \<and>
    parsed = map (\<lambda>l. projr (json_loads E l)) (filter (decodes E) lines) \<and>
    length parsed = length (filter (decodes E) lines)"
  using load_logs_spec[OF assms(1)] assms(2)
  by (simp add: load_outcome_def find_aborts_None values_of_def)

theorem collection_is_decoded_lines_witness:
  "open_lines (file_env scalar_lines scalar_loads) sample_path = Inr (scalar_lines, None) \<and>
   list_all (\<lambda>l. \<not> aborts (file_env scalar_lines scalar_loads) l) scalar_lines \<and>
   (\<exists>parsed. snd (load_logs (file_env scalar_lines scalar_loads) sample_path) = Inr parsed \<and>
      parsed = [JInt 7, level_record (JString (ascii ''INFO''))] \<and> length parsed = 2)"
proof -
  let ?E = "file_env scalar_lines scalar_loads"
  have op: "open_lines ?E sample_path = Inr (scalar_lines, None)" by simp
  have na: "\<forall>l\<in>set scalar_lines. \<not> aborts ?E l"
    by (simp add: scalar_lines_def scalar_loads_def sample_defs aborts_def)
  have d: "filter (decodes ?E) scalar_lines =
      [ascii ''7'' @ [10], level_text (ascii ''INFO'')]"
    by (simp add: decodes_def scalar_lines_def scalar_loads_def sample_defs strip_nonblank
        strip_blank isspace_def)
  have v: "map (\<lambda>l. projr (json_loads ?E l)) [ascii ''7'' @ [10], level_text (ascii ''INFO'')] =
      [JInt 7, level_record (JString (ascii ''INFO''))]"
    by (simp add: scalar_loads_def sample_defs)
  from collection_is_decoded_lines[OF op na]
  obtain parsed where "snd (load_logs ?E sample_path) = Inr parsed"
    and "parsed = map (\<lambda>l. projr (json_loads ?E l)) (filter (decodes ?E) scalar_lines)"
    by blast
  then have "snd (load_logs ?E sample_path) = Inr parsed"
    and "parsed = [JInt 7, level_record (JString (ascii ''INFO''))]"
    by (simp_all only: d v)
  moreover from this have "length parsed = 2" by simp
  moreover have "list_all (\<lambda>l. \<not> aborts ?E l) scalar_lines"
    using na by (simp only: list_all_iff)
  ultimately show ?thesis using op by blast
qed

lemma same_decoder:
  assumes "json_loads E' = json_loads E"
  shows "malformed E' = malformed E" "aborts E' = aborts E" "decodes E' = decodes E"
  using assms by (auto simp: malformed_def aborts_def decodes_def fun_eq_iff)

lemma same_decoder_spec:
  assumes "json_loads E' = json_loads E"
  shows "warnings_of E' i ls = warnings_of E i ls" "reached E' ls = reached E ls"
    "load_outcome E' ls e = load_outcome E ls e"
  using assms
  by (simp_all add: warnings_of_def reached_def load_outcome_def values_of_def
      same_decoder[OF assms] split: option.splits)

text \<open>
  C6. For every input file, a line consisting only of white space is silently skipped: it
  produces no warning, is never added to the collection, and affects no count.

  Whatever the decoder does and however the reading ends, the outcome of the load (the
  collection, or the exception raised) is that of the file with its blank lines taken
  out, as many warnings are printed, and no warning carries the number of a blank line.
\<close>

theorem blank_lines_skipped:
  assumes "open_lines E path = Inr (lines, ending)"
  shows "snd (load_logs E path) =
     snd (load_logs (E\<lparr>open_lines := \<lambda>p. Inr (filter (\<lambda>l. strip l \<noteq> []) lines, ending)\<rparr>) path) \<and>
   length (fst (load_logs E path)) =
     length (fst (load_logs
       (E\<lparr>open_lines := \<lambda>p. Inr (filter (\<lambda>l. strip l \<noteq> []) lines, ending)\<rparr>) path)) \<and>
   (\<forall>j < length lines. strip (lines ! j) = [] \<longrightarrow>
      warning (Suc j) \<notin> set (fst (load_logs E path)))"
proof (intro conjI allI impI)
  let ?nb = "\<lambda>l. strip l \<noteq> []"
  let ?E = "E\<lparr>open_lines := \<lambda>p. Inr (filter ?nb lines, ending)\<rparr>"
  have dec: "json_loads ?E = json_loads E" by simp
  have run: "load_logs E path = (warnings_of E 1 (reached E lines), load_outcome E lines ending)"
    by (rule load_logs_spec[OF assms])
  have "load_logs ?E path =
      (warnings_of ?E 1 (reached ?E (filter ?nb lines)), load_outcome ?E (filter ?nb lines) ending)"
    by (rule load_logs_spec) simp
  then have run': "load_logs ?E path =
      (warnings_of E 1 (reached E (filter ?nb lines)), load_outcome E (filter ?nb lines) ending)"
    by (simp only: same_decoder_spec[OF dec])
  have out: "load_outcome E (filter ?nb lines) ending = load_outcome E lines ending"
    by (rule load_outcome_filter) (simp add: aborts_def decodes_def)
  have re: "reached E (filter ?nb lines) = filter ?nb (reached E lines)"
    by (rule reached_filter) (simp add: aborts_def)
  have "filter (malformed E) (filter ?nb (reached E lines)) = filter (malformed E) (reached E lines)"
    by (induction "reached E lines") (auto simp: malformed_def filter_id_conv)
  then have len: "length (warnings_of E 1 (reached E (filter ?nb lines))) =
      length (warnings_of E 1 (reached E lines))"
    by (simp add: length_warnings_of re)
  from run run' out show "snd (load_logs E path) = snd (load_logs ?E path)" by simp
  from run run' len show "length (fst (load_logs E path)) = length (fst (load_logs ?E path))"
    by simp
  fix j assume j: "j < length lines" and b: "strip (lines ! j) = []"
  have "count_list (warnings_of E 1 (reached E lines)) (warning (Suc j)) = 0"
  proof (cases "j < length (reached E lines)")
    case True
    then have "reached E lines ! j = lines ! j" by (simp add: reached_def takeWhile_nth)
    with b show ?thesis by (simp add: count_warnings_of malformed_def)
  next
    case False
    then show ?thesis by (simp add: count_warnings_of)
  qed
  then have "warning (Suc j) \<notin> set (warnings_of E 1 (reached E lines))"
    using count_list_0_iff by metis
  with run show "warning (Suc j) \<notin> set (fst (load_logs E path))" by simp
qed

theorem blank_lines_skipped_witness:
  "open_lines sample_env sample_path = Inr (sample_lines, None) \<and>
   (1::nat) < length sample_lines \<and> strip (sample_lines ! 1) = [] \<and>
   warning 2 \<notin> set (fst (load_logs sample_env sample_path)) \<and>
   snd (load_logs sample_env sample_path) =
     snd (load_logs (sample_env\<lparr>open_lines := \<lambda>p. Inr
        ([level_text (ascii ''INFO''), ascii ''not-json'' @ [10],
          level_text (ascii ''ERROR''), level_text (ascii ''INFO'')], None)\<rparr>) sample_path)"
proof -
  have l: "(1::nat) < length sample_lines" by (simp add: sample_lines_def)
  have b: "strip (sample_lines ! 1) = []" by (simp add: sample_lines_def strip_blank)
  note r = blank_lines_skipped[OF sample_open]
  from r l b have "warning (Suc 1) \<notin> set (fst (load_logs sample_env sample_path))" by blast
  moreover have "Suc 1 = 2" by simp
  ultimately have w: "warning 2 \<notin> set (fst (load_logs sample_env sample_path))" by metis
  from r have "snd (load_logs sample_env sample_path) =
     snd (load_logs (sample_env\<lparr>open_lines :=
        \<lambda>p. Inr (filter (\<lambda>l. strip l \<noteq> []) sample_lines, None)\<rparr>) sample_path)" by blast
  then have "snd (load_logs sample_env sample_path) =
     snd (load_logs (sample_env\<lparr>open_lines := \<lambda>p. Inr
        ([level_text (ascii ''INFO''), ascii ''not-json'' @ [10],
          level_text (ascii ''ERROR''), level_text (ascii ''INFO'')], None)\<rparr>) sample_path)"
    by (simp only: sample_nonblank)
  with sample_open l b w show ?thesis by blast
qed

section \<open>The summarizer: claims\<close>

lemma utf8_header: "printable sample_env (header sample_path)"
  by (simp add: sample_env_def header_def basename_def sample_path_def printable_def utf8_def
      ascii_def)

lemma utf8_rule: "printable sample_env rule_line"
  by (simp add: sample_env_def rule_line_def printable_def utf8_def list_all_iff)

lemma sample_summary:
  "count_levels sample_logs [] =
     Inr [(JString (ascii ''INFO''), 2), (JString (ascii ''ERROR''), 1)]"
  by (simp add: sample_defs py_eq_def numeral_2_eq_2)

lemma sample_first_keys: "first_keys sample_logs = [JString (ascii ''INFO''), JString (ascii ''ERROR'')]"
  using keys_count_levels_foldl[OF sample_summary] by (simp add: first_keys_def)

lemma sample_uniform: "uniform sample_logs"
  by (simp add: uniform_def str_level_def sample_defs)

lemma sample_printable:
  "summary_printable sample_env \<lparr>file_path = sample_path, logs = sample_logs\<rparr>"
  by (simp add: summary_printable_def utf8_header utf8_rule sample_first_keys)
     (simp add: printable_def ascii_def)




text \<open>
  C2. For every record in the collection, the summarizer reads the value bound to key
  "level" when the record is a mapping; when the key is absent, or when the record is
  not a mapping (a scalar or array decoded from a valid JSON line), the record is counted
  under the literal string "UNKNOWN" and the summarizer does not fail.

  The code at the file whose one line is \<open>[]\<close>: the loader, whose docstring promises a
  list of dictionaries, returns the collection holding the empty array;
  \<open>display_summary\<close> calls \<open>get\<close> on it, which raises \<open>AttributeError\<close> before anything is
  printed; \<open>main\<close> reports an unexpected error. (The text of the exception is empty in
  the sample environment.)
\<close>

theorem non_mapping_record_fails:
  "load_logs (file_env [ascii ''[]'' @ [10]] array_loads) sample_path = ([], Inr [JArray []]) \<and>
   display_summary (file_env [ascii ''[]'' @ [10]] array_loads)
     \<lparr>file_path = sample_path, logs = [JArray []]\<rparr> = ([], Inl AttributeError) \<and>
   main (file_env [ascii ''[]'' @ [10]] array_loads) sample_path =
     ([[10060] @ ascii '' An unexpected error occurred: ''], Inr ())"
proof -
  let ?E = "file_env [ascii ''[]'' @ [10]] array_loads"
  have nb: "strip (ascii ''[]'' @ [10]) \<noteq> []"
    by (simp add: ascii_def strip_nonblank isspace_def)
  have dec: "array_loads (ascii ''[]'' @ [10]) = Inr (JArray [])"
    by (simp add: array_loads_def)
  have "load_loop ?E 1 [ascii ''[]'' @ [10]] None [] [] = ([], Inr [JArray []])"
    using nb dec by (simp add: load_loop_decodes)
  then have l: "load_logs ?E sample_path = ([], Inr [JArray []])"
    by (simp add: load_logs_def)
  have d: "display_summary ?E \<lparr>file_path = sample_path, logs = [JArray []]\<rparr> =
      ([], Inl AttributeError)"
    by (simp add: display_summary_def)
  have p: "printable ?E ([10060] @ ascii '' An unexpected error occurred: '')"
    by (simp add: printable_def utf8_def ascii_def)
  have "str_exn ?E AttributeError = []" by (simp add: str_exn_def file_env_def)
  then have "report_error ?E AttributeError = [10060] @ ascii '' An unexpected error occurred: ''"
    by (simp add: report_error_def)
  with l d p have "main ?E sample_path =
     ([[10060] @ ascii '' An unexpected error occurred: ''], Inr ())"
    by (simp add: main_def init_def print_ok)
  with l d show ?thesis by blast
qed

text \<open>
  C3. For every collection, when a record's "level" value is present but not a string
  (a number or null), the summarizer does not crash: the value is converted to a display
  string and used as the grouping key, and the report is still produced.

  No conversion takes place. With the single record \<open>{"level": null}\<close> the key \<open>None\<close> is
  counted, the header and the rule are printed, and formatting the key with \<open><10\<close>
  raises \<open>TypeError\<close>: no level line and no \<open>Total\<close> line follow.
\<close>

theorem null_level_counterexample:
  "display_summary sample_env \<lparr>file_path = sample_path, logs = [level_record JNull]\<rparr> =
     ([header sample_path, rule_line], Inl TypeError)"
  by (simp add: display_summary_def level_record_def sorted_items_def print_ok utf8_header
      utf8_rule print_levels_step)

text \<open>
  C3, as amended. When a record's "level" value is present but not a string, it is used
  as the grouping key as it is, without conversion, and the summarizer may crash. It
  completes exactly when the collection is empty, or all records are mappings, their
  grouping keys are all strings or all numbers (\<open>int\<close>, \<open>bool\<close>, \<open>float\<close>), and standard
  output can encode the header, the rule and the text of every key of the summary.
\<close>

theorem summary_returns_iff:
  "(\<exists>out. display_summary E self = (out, Inr ())) \<longleftrightarrow>
     logs self = [] \<or> (uniform (logs self) \<and> summary_printable E self)"
proof (cases "logs self = []")
  case True
  then show ?thesis by (simp add: display_summary_def print_ok)
next
  case False
  with display_summary_returns[OF False, of E] show ?thesis by simp
qed

theorem summary_returns_iff_witness:
  "uniform [level_record (JInt 5), level_record (JFloat (Finite (3 / 2))),
            level_record (JBool True)] \<and>
   summary_printable sample_env \<lparr>file_path = sample_path,
     logs = [level_record (JInt 5), level_record (JFloat (Finite (3 / 2))),
             level_record (JBool True)]\<rparr> \<and>
   (\<exists>out. display_summary sample_env \<lparr>file_path = sample_path,
     logs = [level_record (JInt 5), level_record (JFloat (Finite (3 / 2))),
             level_record (JBool True)]\<rparr> = (out, Inr ())) \<and>
   \<not> summary_printable sample_env
       \<lparr>file_path = sample_path, logs = [level_record (JString [55296])]\<rparr> \<and>
   \<not> (\<exists>out. display_summary sample_env
       \<lparr>file_path = sample_path, logs = [level_record (JString [55296])]\<rparr> = (out, Inr ())) \<and>
   \<not> uniform [level_record JNull, level_record (JString (ascii ''INFO''))] \<and>
   \<not> (\<exists>out. display_summary sample_env \<lparr>file_path = sample_path,
      logs = [level_record JNull, level_record (JString (ascii ''INFO''))]\<rparr> = (out, Inr ()))"
proof -
  let ?n = "[level_record (JInt 5), level_record (JFloat (Finite (3 / 2))),
            level_record (JBool True)]"
  let ?s = "[level_record (JString [55296])]"
  let ?m = "[level_record JNull, level_record (JString (ascii ''INFO''))]"
  have u: "uniform ?n" by (simp add: uniform_def num_level_def level_record_def)
  have d: "printable sample_env (str_int 5)"
    by (simp add: str_int_def)
  have "first_keys ?n = [JInt 5, JFloat (Finite (3 / 2)), JBool True]"
    by (simp add: first_keys_def insert_key_def level_of_def level_record_def py_eq_def)
  then have p: "summary_printable sample_env \<lparr>file_path = sample_path, logs = ?n\<rparr>"
    using d by (simp add: summary_printable_def utf8_header utf8_rule)
      (simp add: sample_env_def file_env_def printable_def ascii_def)
  have "first_keys ?s = [JString [55296]]"
    by (simp add: first_keys_def insert_key_def level_of_def level_record_def)
  then have np: "\<not> summary_printable sample_env \<lparr>file_path = sample_path, logs = ?s\<rparr>"
    by (simp add: summary_printable_def)
      (simp add: sample_env_def printable_def utf8_def)
  have nu: "\<not> uniform ?m"
    by (simp add: uniform_def str_level_def num_level_def level_record_def)
  from summary_returns_iff[of sample_env "\<lparr>file_path = sample_path, logs = ?n\<rparr>"] u p
  have a: "\<exists>out. display_summary sample_env \<lparr>file_path = sample_path, logs = ?n\<rparr> =
      (out, Inr ())" by simp
  from summary_returns_iff[of sample_env "\<lparr>file_path = sample_path, logs = ?s\<rparr>"] np
  have b: "\<not> (\<exists>out. display_summary sample_env \<lparr>file_path = sample_path, logs = ?s\<rparr> =
      (out, Inr ()))" by simp
  from summary_returns_iff[of sample_env "\<lparr>file_path = sample_path, logs = ?m\<rparr>"] nu
  have c: "\<not> (\<exists>out. display_summary sample_env \<lparr>file_path = sample_path, logs = ?m\<rparr> =
      (out, Inr ()))" by simp
  from u p a np b nu c show ?thesis by blast
qed

text \<open>
  C7. For every non-empty collection, the report contains exactly one line per distinct
  level, those lines are sorted lexicographically by level name, and no level with count
  0 appears.

  With the levels 10 and 9 given as JSON numbers the keys are integers, \<open>sorted\<close> orders
  them as numbers, and the line of 9 is printed before the line of 10, although the
  name "10" is lexicographically smaller than "9".
\<close>

theorem numeric_levels_order_counterexample:
  "display_summary sample_env
     \<lparr>file_path = sample_path, logs = [level_record (JInt 10), level_record (JInt 9)]\<rparr> =
     ([header sample_path, rule_line, ascii ''9         : 1'', ascii ''10        : 1'',
       rule_line, ascii ''Total     : 2'' @ [10]], Inr ()) \<and>
   ascii ''10'' < ascii ''9'' \<and>
   ascii ''10        : 1'' < ascii ''9         : 1''"
proof -
  let ?self = "\<lparr>file_path = sample_path,
      logs = [level_record (JInt 10), level_record (JInt 9)]\<rparr>"
  have ne: "logs ?self \<noteq> []" by simp
  have c: "count_levels (logs ?self) [] = Inr [(JInt 10, 1), (JInt 9, 1)]"
    by (simp add: level_record_def py_eq_def)
  then have ls: "level_summary (logs ?self) = [(JInt 10, 1), (JInt 9, 1)]"
    and cl: "list_all countable_log (logs ?self)"
    by (simp_all only: count_levels_iff)
  have s: "sorted_items sample_env [(JInt 10, 1), (JInt 9, 1)] = Inr [(JInt 9, 1), (JInt 10, 1)]"
    by (simp add: sorted_items_def num_val_def less_eq_prod_def)
  have f: "str_int 9 = ascii ''9''" "str_int 10 = ascii ''10''"
    by (simp_all add: str_int_def ascii_def str_nat.simps[of 9] str_nat.simps[of 10]
        str_nat.simps[of "Suc 0"])
  have ok: "items_ok sample_env [(JInt 9, 1), (JInt 10, 1)]"
    by (simp add: items_ok_def field_of_def str_int_def)
  have lines: "map (item_line sample_env) [(JInt 9, 1), (JInt 10, 1)] =
      [ascii ''9         : 1'', ascii ''10        : 1'']"
    by (simp add: item_line_def field_of_def f level_line_def ljust_def ascii_def
        str_nat.simps[of "Suc 0"] numeral_eq_Suc)
  have tot: "total_line (length (logs ?self)) = ascii ''Total     : 2'' @ [10]"
    by (simp add: total_line_text ascii_def str_nat.simps[of "Suc (Suc 0)"])
  have "display_summary sample_env ?self =
     ([header (file_path ?self), rule_line] @ map (item_line sample_env) [(JInt 9, 1), (JInt 10, 1)] @
      [rule_line, total_line (length (logs ?self))], Inr ())"
    unfolding display_summary_Inr_iff[OF ne] using cl s ok utf8_header utf8_rule
    by (simp only: ls) simp
  then have "display_summary sample_env ?self =
     ([header sample_path, rule_line, ascii ''9         : 1'', ascii ''10        : 1'',
       rule_line, ascii ''Total     : 2'' @ [10]], Inr ())"
    by (simp only: lines tot) simp
  moreover have "ascii ''10'' < ascii ''9''" by (simp add: ascii_def)
  moreover have "ascii ''10        : 1'' < ascii ''9         : 1''" by (simp add: ascii_def)
  ultimately show ?thesis by blast
qed

text \<open>
  C7, as amended. For every non-empty collection on which the summarizer completes (all
  records are mappings, their levels are all strings or all numbers, and standard output
  can encode the texts), the report contains exactly one line per distinct level, where
  levels that are equal in Python are one level, no level with count 0 appears, and the
  lines are in increasing order of the level: lexicographic for string levels, by value
  for numeric levels without \<open>NaN\<close>.

  Between the header with its rule and the closing rule with the \<open>Total\<close> line there is
  one line for each item of a list without repetition; every record is counted in
  exactly one item; the count of an item is the number of records with its key, which is
  not zero, and its key is the level of some record; and the keys increase strictly.
\<close>

theorem report_one_line_per_level:
  assumes "logs self \<noteq> []" and "uniform (logs self)" and "summary_printable E self"
  shows "\<exists>items.
    display_summary E self =
      ([header (file_path self), rule_line] @ map (report_line E) items @
       [rule_line, ascii ''Total     : '' @ str_nat (length (logs self)) @ [10]], Inr ()) \<and>
    distinct items \<and>
    (\<forall>r\<in>set (logs self). \<exists>!x. x \<in> set items \<and> counted_as (fst x) r) \<and>
    (\<forall>x\<in>set items. snd x = length (filter (counted_as (fst x)) (logs self)) \<and> 0 < snd x \<and>
       (\<exists>r\<in>set (logs self). get_level r = Inr (fst x))) \<and>
    (list_all str_level (logs self) \<longrightarrow> sorted_wrt (<) (map (\<lambda>x. str_val (fst x)) items)) \<and>
    (list_all num_level (logs self) \<and> \<not> list_ex nan_level (logs self) \<longrightarrow>
       sorted_wrt (<) (map (\<lambda>x. num_val (fst x)) items))"
proof -
  let ?c = "level_summary (logs self)"
  from report_items[OF assms] obtain items where
    run: "display_summary E self =
      ([header (file_path self), rule_line] @ map (report_line E) items @
       [rule_line, ascii ''Total     : '' @ str_nat (length (logs self)) @ [10]], Inr ())"
    and it: "sorted_items E ?c = Inr items" and ms: "mset items = mset ?c" by blast
  have cl: "list_all countable_log (logs self)" by (rule uniform_countable[OF assms(2)])
  have kd: "keys_differ ?c" by (rule summary_keys_differ[OF cl])
  have si: "set items = set ?c" using ms by (rule mset_eq_setD)
  have di: "distinct items" using keys_differ_distinct[OF kd] ms by (metis mset_eq_imp_distinct_iff)
  have one: "\<exists>!x. x \<in> set items \<and> counted_as (fst x) r" if r: "r \<in> set (logs self)" for r
  proof -
    from summary_covers[OF cl r] obtain x where x: "x \<in> set ?c" "counted_as (fst x) r" by blast
    have "y = x" if "y \<in> set ?c" "counted_as (fst y) r" for y
      using counted_as_unique[OF kd that(1) x(1) that(2) x(2)] .
    with x show ?thesis unfolding si by blast
  qed
  have mem: "snd x = length (filter (counted_as (fst x)) (logs self)) \<and> 0 < snd x \<and>
       (\<exists>r\<in>set (logs self). get_level r = Inr (fst x))" if "x \<in> set items" for x
    using summary_member[OF cl, of x] that si by simp
  have so: "sorted_wrt (<) (map (\<lambda>x. str_val (fst x)) items)" if st: "list_all str_level (logs self)"
  proof -
    have c: "count_levels (logs self) [] = Inr ?c" using cl by (simp add: count_levels_iff)
    from st have "\<And>l. l \<in> set (logs self) \<Longrightarrow> \<exists>k. get_level l = Inr k \<and> is_str k"
      by (simp add: list_all_iff str_level_iff)
    from keys_kind_forward[OF c this] have "list_all (\<lambda>x. is_str (fst x)) ?c"
      by (simp add: list_all_iff)
    from strict_str_order[OF it this kd] show ?thesis .
  qed
  have no: "sorted_wrt (<) (map (\<lambda>x. num_val (fst x)) items)"
    if nm: "list_all num_level (logs self) \<and> \<not> list_ex nan_level (logs self)"
  proof -
    have c: "count_levels (logs self) [] = Inr ?c" using cl by (simp add: count_levels_iff)
    from nm have "\<And>l. l \<in> set (logs self) \<Longrightarrow> \<exists>k. get_level l = Inr k \<and> is_number k"
      by (simp add: list_all_iff num_level_iff)
    from keys_kind_forward[OF c this] have "list_all (\<lambda>x. is_number (fst x)) ?c"
      by (simp add: list_all_iff)
    from strict_num_order[OF it this summary_no_nan[OF cl] kd] nm show ?thesis by blast
  qed
  from run di one mem so no show ?thesis by blast
qed

theorem report_one_line_per_level_witness:
  "sample_logs \<noteq> [] \<and> uniform sample_logs \<and>
   summary_printable sample_env \<lparr>file_path = sample_path, logs = sample_logs\<rparr> \<and>
   list_all str_level sample_logs \<and>
   (\<exists>items.
      display_summary sample_env \<lparr>file_path = sample_path, logs = sample_logs\<rparr> =
        ([header sample_path, rule_line] @ map (report_line sample_env) items @
         [rule_line, ascii ''Total     : '' @ str_nat 3 @ [10]], Inr ()) \<and>
      distinct items \<and> sorted_wrt (<) (map (\<lambda>x. str_val (fst x)) items)) \<and>
   list_all num_level [level_record (JInt 10), level_record (JInt 9)] \<and>
   \<not> list_ex nan_level [level_record (JInt 10), level_record (JInt 9)] \<and>
   summary_printable sample_env
     \<lparr>file_path = sample_path, logs = [level_record (JInt 10), level_record (JInt 9)]\<rparr> \<and>
   (\<exists>items.
      display_summary sample_env
        \<lparr>file_path = sample_path, logs = [level_record (JInt 10), level_record (JInt 9)]\<rparr> =
        ([header sample_path, rule_line] @ map (report_line sample_env) items @
         [rule_line, ascii ''Total     : '' @ str_nat 2 @ [10]], Inr ()) \<and>
      sorted_wrt (<) (map (\<lambda>x. num_val (fst x)) items))"
proof -
  let ?self = "\<lparr>file_path = sample_path, logs = sample_logs\<rparr>"
  let ?nl = "[level_record (JInt 10), level_record (JInt 9)]"
  let ?nself = "\<lparr>file_path = sample_path, logs = ?nl\<rparr>"
  have nne: "logs ?nself \<noteq> []" by simp
  have nm: "list_all num_level ?nl" by (simp add: num_level_def level_record_def)
  have nn: "\<not> list_ex nan_level ?nl" by (simp add: nan_level_def level_record_def)
  have nun: "uniform (logs ?nself)" using nm by (simp add: uniform_def)
  have "first_keys ?nl = [JInt 10, JInt 9]"
    by (simp add: first_keys_def insert_key_def level_of_def level_record_def py_eq_def)
  then have np: "summary_printable sample_env ?nself"
    by (simp add: summary_printable_def utf8_header utf8_rule str_int_def)
  from report_one_line_per_level[OF nne nun np] nm nn
  obtain nitems where "display_summary sample_env ?nself =
        ([header (file_path ?nself), rule_line] @ map (report_line sample_env) nitems @
         [rule_line, ascii ''Total     : '' @ str_nat (length (logs ?nself)) @ [10]], Inr ())"
    and "sorted_wrt (<) (map (\<lambda>x. num_val (fst x)) nitems)"
    by auto
  moreover have "length (logs ?nself) = 2" "file_path ?nself = sample_path" by simp_all
  ultimately have "display_summary sample_env ?nself =
        ([header sample_path, rule_line] @ map (report_line sample_env) nitems @
         [rule_line, ascii ''Total     : '' @ str_nat 2 @ [10]], Inr ())"
    and "sorted_wrt (<) (map (\<lambda>x. num_val (fst x)) nitems)"
    by (simp_all only:)
  then have num: "\<exists>items.
      display_summary sample_env ?nself =
        ([header sample_path, rule_line] @ map (report_line sample_env) items @
         [rule_line, ascii ''Total     : '' @ str_nat 2 @ [10]], Inr ()) \<and>
      sorted_wrt (<) (map (\<lambda>x. num_val (fst x)) items)"
    by blast
  have ne: "logs ?self \<noteq> []" by (simp add: sample_logs_def)
  have un: "uniform (logs ?self)" using sample_uniform by simp
  have st: "list_all str_level sample_logs" by (simp add: str_level_def sample_defs)
  have len: "length sample_logs = 3" by (simp add: sample_logs_def)
  from report_one_line_per_level[OF ne un sample_printable] st
  obtain items where "display_summary sample_env ?self =
        ([header (file_path ?self), rule_line] @ map (report_line sample_env) items @
         [rule_line, ascii ''Total     : '' @ str_nat (length (logs ?self)) @ [10]], Inr ())"
    and "distinct items" and "sorted_wrt (<) (map (\<lambda>x. str_val (fst x)) items)"
    by auto
  then have "\<exists>items.
      display_summary sample_env ?self =
        ([header sample_path, rule_line] @ map (report_line sample_env) items @
         [rule_line, ascii ''Total     : '' @ str_nat 3 @ [10]], Inr ()) \<and>
      distinct items \<and> sorted_wrt (<) (map (\<lambda>x. str_val (fst x)) items)"
    using len by auto
  with ne un sample_printable st nm nn np num show ?thesis by simp
qed

text \<open>
  C10. For every mapping record in which the key "level" is present, the record is
  grouped under that key's decoded value itself, JSON null or other falsy values
  included, and never under "UNKNOWN": only the absence of the key gives "UNKNOWN".

  The empty array is such a falsy value: \<open>get\<close> returns it, but a \<open>list\<close> is not hashable,
  so the \<open>Counter\<close> raises \<open>TypeError\<close> and the record is grouped under nothing.
\<close>

theorem unhashable_level_counterexample:
  "get_level (level_record (JArray [])) = Inr (JArray []) \<and>
   count_levels [level_record (JArray [])] [] = Inl TypeError \<and>
   display_summary sample_env \<lparr>file_path = sample_path, logs = [level_record (JArray [])]\<rparr> =
     ([], Inl TypeError)"
  by (simp add: display_summary_def level_record_def)

text \<open>
  C10, as amended. The grouping key of a mapping with the key "level" is the bound
  value itself, whatever it is, and never the default. The \<open>Counter\<close> is built exactly
  when every record is a mapping with a hashable grouping key; then the count kept under
  any key \<open>k\<close> is the number of records whose grouping key equals \<open>k\<close>, so the record is
  counted under its own value, and it is counted under "UNKNOWN" only when its value is
  the string "UNKNOWN".
\<close>

theorem present_level_is_key:
  "(map_of d level_key = Some v \<longrightarrow> get_level (JObject d) = Inr v) \<and>
   ((\<exists>c. count_levels ls [] = Inr c) \<longleftrightarrow> list_all countable_log ls) \<and>
   (\<forall>c. count_levels ls [] = Inr c \<longrightarrow>
      counter_get c k = length (filter (counted_as k) ls) \<and>
      (JObject d \<in> set ls \<and> map_of d level_key = Some v \<longrightarrow> 0 < counter_get c v)) \<and>
   (map_of d level_key = Some v \<longrightarrow> (counted_as UNKNOWN (JObject d) \<longleftrightarrow> v = UNKNOWN))"
proof (intro conjI allI impI)
  assume "map_of d level_key = Some v"
  then show "get_level (JObject d) = Inr v" by simp
next
  show "(\<exists>c. count_levels ls [] = Inr c) \<longleftrightarrow> list_all countable_log ls"
    by (rule count_levels_succeeds)
next
  fix c assume c: "count_levels ls [] = Inr c"
  from counter_get_count_levels[OF c, of k]
  show "counter_get c k = length (filter (counted_as k) ls)" by simp
next
  fix c assume c: "count_levels ls [] = Inr c"
    and m: "JObject d \<in> set ls \<and> map_of d level_key = Some v"
  then have "counted_as v (JObject d)" by (simp add: counted_as_def)
  with m have "filter (counted_as v) ls \<noteq> []" by (auto simp: filter_empty_conv)
  with counter_get_count_levels[OF c, of v] show "0 < counter_get c v" by simp
next
  assume "map_of d level_key = Some v"
  then show "counted_as UNKNOWN (JObject d) \<longleftrightarrow> v = UNKNOWN"
    by (simp add: counted_as_def UNKNOWN_def)
qed

theorem present_level_is_key_witness:
  "map_of [(level_key, JNull)] level_key = Some JNull \<and>
   get_level (level_record JNull) = Inr JNull \<and>
   list_all countable_log [level_record JNull, level_record (JBool False)] \<and>
   count_levels [level_record JNull, level_record (JBool False)] [] =
     Inr [(JNull, 1), (JBool False, 1)] \<and>
   0 < counter_get [(JNull, 1), (JBool False, 1)] JNull \<and>
   counter_get [(JNull, 1), (JBool False, 1)] UNKNOWN = 0 \<and>
   \<not> counted_as UNKNOWN (level_record JNull)"
proof -
  let ?ls = "[level_record JNull, level_record (JBool False)]"
  have h1: "map_of [(level_key, JNull)] level_key = Some JNull" by simp
  have h2: "list_all countable_log ?ls" by (simp add: countable_log_def level_record_def)
  have h3: "count_levels ?ls [] = Inr [(JNull, 1), (JBool False, 1)]"
    by (simp add: level_record_def py_eq_def)
  have h4: "level_record JNull \<in> set ?ls" by simp
  have h5: "JNull \<noteq> UNKNOWN" by (simp add: UNKNOWN_def)
  have h6: "filter (counted_as UNKNOWN) ?ls = []"
    by (simp add: counted_as_def level_record_def UNKNOWN_def)
  note r = present_level_is_key[of "[(level_key, JNull)]" JNull ?ls]
  from r[of JNull] h1 have a: "get_level (level_record JNull) = Inr JNull"
    by (simp add: level_record_def)
  from r[of JNull] h1 h3 h4 have b: "0 < counter_get [(JNull, 1), (JBool False, 1)] JNull"
    unfolding level_record_def by blast
  from r[of UNKNOWN] h3 have "counter_get [(JNull, 1), (JBool False, 1)] UNKNOWN =
      length (filter (counted_as UNKNOWN) ?ls)" by blast
  with h6 have c: "counter_get [(JNull, 1), (JBool False, 1)] UNKNOWN = 0" by (simp only: list.size)
  from r[of JNull] h1 h5 have d: "\<not> counted_as UNKNOWN (level_record JNull)"
    unfolding level_record_def by blast
  from h1 a h2 h3 b c d show ?thesis by blast
qed

section \<open>The program: claims\<close>

text \<open>
  C8. For every path that does not exist, the run fails with a not-found error raised
  before any read attempt, the error is reported to the user as a printed message, the
  program completes normally, and no summary is printed.

  The message starts with the cross mark U+274C. Where standard output encodes ASCII
  only, the \<open>print\<close> in the handler raises \<open>UnicodeEncodeError\<close>; no other handler
  catches it, nothing is printed, and the exception leaves \<open>main\<close>.
\<close>

theorem unprintable_report_counterexample:
  "\<not> path_exists ascii_env sample_path \<and>
   main ascii_env sample_path = ([], Inl UnicodeEncodeError)"
  by (simp add: ascii_env_def main_def init_def report_error_def str_exn_def print_def
      printable_def)

text \<open>
  C8, as amended. For every path that does not exist, the run fails with a not-found
  error raised before any read attempt and no summary is printed. When standard output
  can encode the cross mark and the path, the error is reported to the user as a printed
  message and the program completes normally; otherwise the \<open>print\<close> in the handler
  raises \<open>UnicodeEncodeError\<close>, nothing is printed and the exception leaves the program.

  When \<open>os.path.exists\<close> is false, \<open>__init__\<close> raises \<open>FileNotFoundError\<close> whatever
  opening the file or decoding would do (they are not reached).
\<close>

theorem missing_file_reported:
  assumes "\<not> path_exists E path"
  shows "init E path = ([], Inl (FileNotFoundError (ascii ''File doesn't exists '' @ path))) \<and>
    (encodes E 10060 \<and> printable E path \<longrightarrow>
       main E path = ([[10060, 32] @ ascii ''File doesn't exists '' @ path], Inr ())) \<and>
    (\<not> (encodes E 10060 \<and> printable E path) \<longrightarrow>
       main E path = ([], Inl UnicodeEncodeError))"
proof -
  have i: "init E path = ([], Inl (FileNotFoundError (ascii ''File doesn't exists '' @ path)))"
    using assms by (simp add: init_def)
  have r: "report_error E (FileNotFoundError (ascii ''File doesn't exists '' @ path)) =
      [10060, 32] @ ascii ''File doesn't exists '' @ path"
    by (simp add: report_error_def str_exn_def)
  have p: "printable E ([10060, 32] @ ascii ''File doesn't exists '' @ path) \<longleftrightarrow>
      encodes E 10060 \<and> printable E path"
    by (simp only: printable_append) (simp add: printable_def ascii_def)
  from i r p show ?thesis by (simp add: main_def print_def)
qed

theorem missing_file_reported_witness:
  "\<not> path_exists (sample_env\<lparr>path_exists := \<lambda>p. False\<rparr>) sample_path \<and>
   encodes (sample_env\<lparr>path_exists := \<lambda>p. False\<rparr>) 10060 \<and>
   printable (sample_env\<lparr>path_exists := \<lambda>p. False\<rparr>) sample_path \<and>
   main (sample_env\<lparr>path_exists := \<lambda>p. False\<rparr>) sample_path =
     ([[10060, 32] @ ascii ''File doesn't exists '' @ sample_path], Inr ())"
proof -
  let ?E = "sample_env\<lparr>path_exists := \<lambda>p. False\<rparr>"
  have h: "\<not> path_exists ?E sample_path" by simp
  have e: "encodes ?E 10060" by (simp add: sample_env_def utf8_def)
  have p: "printable ?E sample_path" by (simp add: printable_def sample_path_def ascii_def)
  from missing_file_reported[OF h] e p h show ?thesis by blast
qed

text \<open>
  C9. For every empty collection (a file containing only blank or malformed lines), the
  summarizer emits a single "no entries found" message and stops: no header, no
  per-level lines, and no zero-filled \<open>Total\<close> line are printed.

  On an empty collection \<open>display_summary\<close> prints the one message and returns. For an
  existing file whose lines are all blank or malformed, the whole run prints the
  warnings for the malformed lines followed by that message.
\<close>

theorem empty_collection_message:
  "(logs self = [] \<longrightarrow> display_summary E self = ([no_entries], Inr ())) \<and>
   (path_exists E path \<and> open_lines E path = Inr (lines, None) \<and>
    list_all (\<lambda>l. strip l = [] \<or> malformed E l) lines \<longrightarrow>
      main E path =
        (map (\<lambda>(n, l). warning n) (filter (\<lambda>(n, l). malformed E l) (enumerate 1 lines)) @
         [no_entries], Inr ()))"
proof (intro conjI impI)
  assume "logs self = []"
  then show "display_summary E self = ([no_entries], Inr ())"
    by (simp add: display_summary_def print_ok)
next
  assume a: "path_exists E path \<and> open_lines E path = Inr (lines, None) \<and>
    list_all (\<lambda>l. strip l = [] \<or> malformed E l) lines"
  then have na: "\<forall>l\<in>set lines. \<not> aborts E l"
    by (auto simp: list_all_iff aborts_def malformed_def)
  from a have "filter (decodes E) lines = []"
    by (auto simp: list_all_iff decodes_def malformed_def filter_empty_conv)
  then have "values_of E lines = []" by (simp add: values_of_def)
  with load_logs_spec[of E path lines None] a na
  have "load_logs E path = (warnings_of E 1 lines, Inr [])"
    by (simp add: reached_all load_outcome_def find_aborts_None)
  with a have "init E path = (warnings_of E 1 lines, Inr \<lparr>file_path = path, logs = []\<rparr>)"
    by (simp add: init_def)
  then show "main E path =
        (map (\<lambda>(n, l). warning n) (filter (\<lambda>(n, l). malformed E l) (enumerate 1 lines)) @
         [no_entries], Inr ())"
    by (simp add: main_def display_summary_def print_ok warnings_of_def)
qed

theorem empty_collection_message_witness:
  "path_exists (file_env [[32, 10], ascii ''not-json'' @ [10]] sample_loads) sample_path \<and>
   list_all (\<lambda>l. strip l = [] \<or>
       malformed (file_env [[32, 10], ascii ''not-json'' @ [10]] sample_loads) l)
     [[32, 10], ascii ''not-json'' @ [10]] \<and>
   main (file_env [[32, 10], ascii ''not-json'' @ [10]] sample_loads) sample_path =
     ([warning 2, no_entries], Inr ()) \<and>
   display_summary sample_env \<lparr>file_path = sample_path, logs = []\<rparr> = ([no_entries], Inr ())"
proof -
  let ?lines = "[[32, 10], ascii ''not-json'' @ [10]]"
  let ?E = "file_env ?lines sample_loads"
  have ex: "path_exists ?E sample_path" by simp
  have op: "open_lines ?E sample_path = Inr (?lines, None)" by simp
  have h: "list_all (\<lambda>l. strip l = [] \<or> malformed ?E l) ?lines"
    by (simp add: malformed_def sample_defs strip_blank strip_nonblank isspace_def)
  have w: "map (\<lambda>(n, l). warning n) (filter (\<lambda>(n, l). malformed ?E l) (enumerate 1 ?lines)) =
      [warning 2]"
    by (simp add: malformed_def sample_defs strip_nonblank strip_blank
        isspace_def enumerate_simps numeral_2_eq_2)
  note r1 = empty_collection_message[of "\<lparr>file_path = sample_path, logs = []\<rparr>" sample_env]
  note r2 = empty_collection_message[of "\<lparr>file_path = sample_path, logs = []\<rparr>" ?E
      sample_path ?lines]
  from r2 ex op h have "main ?E sample_path =
      (map (\<lambda>(n, l). warning n) (filter (\<lambda>(n, l). malformed ?E l) (enumerate 1 ?lines)) @
       [no_entries], Inr ())" by blast
  then have a: "main ?E sample_path = ([warning 2, no_entries], Inr ())"
    by (simp only: w append.simps)
  from r1 have b: "display_summary sample_env \<lparr>file_path = sample_path, logs = []\<rparr> =
      ([no_entries], Inr ())" by simp
  from ex h a b show ?thesis by blast
qed

end
